theory Spec2Isabelle
  imports Main "HOL-Library.Word"
begin

unbundle bit_operations_syntax

section \<open>The GIF LZW decoder of AnimImage\<close>

text \<open>
  The development embeds the C sources of the GIF decoder: the growable vector
  \<^verbatim>\<open>myvector\<close> (\<^verbatim>\<open>myv_init\<close>, \<^verbatim>\<open>myv_clear\<close>, \<^verbatim>\<open>myv_realloc\<close>, \<^verbatim>\<open>myv_append\<close>,
  \<^verbatim>\<open>myv_copy\<close>) and the decoder \<^verbatim>\<open>LZWAlgorythm\<close> that returns the vector of
  decoded colour indices.

  Machine types: \<^verbatim>\<open>unsigned int\<close> is a 32-bit word, \<^verbatim>\<open>size_t\<close> a 64-bit word,
  \<^verbatim>\<open>uint16_t\<close> a 16-bit word, \<^verbatim>\<open>unsigned char\<close> an 8-bit word; multi-byte values are
  little-endian (the decoder's \<^verbatim>\<open>memcpy\<close> into \<^verbatim>\<open>accumulator\<close> relies on it).
\<close>

subsection \<open>The growable vector: bookkeeping of \<^verbatim>\<open>struct myvector\<close>\<close>

text \<open>
  The four fields of the struct. \<open>ptr\<close> is the address of the storage, \<open>0\<close> the null
  pointer. The contents of the storage are not part of this record: the functions below
  are the bookkeeping of the C functions, and each takes as its first argument the
  pointer that the allocator (\<^verbatim>\<open>calloc\<close>, \<^verbatim>\<open>realloc\<close>) returns to that call, \<open>0\<close> when
  the allocation fails.
\<close>

record myvector =
  ptr :: nat
  element_size :: "64 word"
  elements :: "32 word"
  alloc_elements :: "64 word"

definition MIN_ALLOC :: "32 word" where
  "MIN_ALLOC = 10"

definition myv_init :: "nat \<Rightarrow> 64 word \<Rightarrow> 32 word \<Rightarrow> bool \<Rightarrow> myvector" where
  "myv_init p el_sz el fixed =
     (let alloc_el = (if fixed then el else (if el \<le> MIN_ALLOC then MIN_ALLOC else el))
      in \<lparr>ptr = p,
          element_size = (if p \<noteq> 0 then el_sz else 0),
          elements = (if p \<noteq> 0 then el else 0),
          alloc_elements = (if p \<noteq> 0 then ucast alloc_el else 0)\<rparr>)"

definition myv_free :: "myvector \<Rightarrow> myvector" where
  "myv_free v = (if ptr v \<noteq> 0 then v\<lparr>ptr := 0\<rparr> else v)"

definition myv_clear :: "myvector \<Rightarrow> myvector" where
  "myv_clear v = v\<lparr>elements := 0\<rparr>"

definition myv_realloc :: "nat \<Rightarrow> myvector \<Rightarrow> 32 word \<Rightarrow> myvector" where
  "myv_realloc p v alloc_el =
     (if ptr v \<noteq> 0 then
        (if p \<noteq> 0 then
           v\<lparr>ptr := p,
             alloc_elements := ucast alloc_el,
             elements := (if alloc_el < elements v then alloc_el else elements v)\<rparr>
         else v\<lparr>ptr := 0, alloc_elements := 0, elements := 0\<rparr>)
      else v)"

text \<open>
  \<^verbatim>\<open>myv_append\<close>: the sum \<^verbatim>\<open>v->elements + new_el\<close> is an \<^verbatim>\<open>unsigned int\<close> sum (it
  wraps), compared with the \<^verbatim>\<open>size_t\<close> capacity. \<^verbatim>\<open>realloc\<close> is called only when the
  sum exceeds the capacity; \<open>p\<close> is its result.
\<close>

definition myv_append :: "nat \<Rightarrow> myvector \<Rightarrow> 32 word \<Rightarrow> myvector" where
  "myv_append p v new_el =
     (if ptr v \<noteq> 0 then
        (let grow = (alloc_elements v < ucast (elements v + new_el));
             alloc_el = (if grow then (if new_el < elements v then elements v else new_el) else 0);
             q = (if grow then p else ptr v)
         in if q \<noteq> 0 then
              v\<lparr>ptr := q,
                alloc_elements := alloc_elements v + ucast alloc_el,
                elements := elements v + new_el\<rparr>
            else v\<lparr>ptr := 0, alloc_elements := 0, elements := 0\<rparr>)
      else v)"

definition myv_copy :: "nat \<Rightarrow> myvector \<Rightarrow> myvector \<Rightarrow> myvector" where
  "myv_copy p v_to v_from =
     (let v = v_to\<lparr>elements := 0\<rparr>
      in if elements v_from \<noteq> 0 then myv_append p v (elements v_from) else v)"

text \<open>The invariant of the bookkeeping: the logical length fits the capacity.\<close>

definition myv_ok :: "myvector \<Rightarrow> bool" where
  "myv_ok v = (unat (elements v) \<le> unat (alloc_elements v))"

subsection \<open>The decoder \<^verbatim>\<open>LZWAlgorythm\<close>\<close>

datatype t_status = MUSTCLEAR | FIRST | NORMAL | DEFERRED

text \<open>
  The two \<^verbatim>\<open>return 0\<close> of the decoder (both print "Bad LZW code") are told apart by the
  place they stand at: \<open>ExpectedClearCode\<close> in state \<open>MUSTCLEAR\<close>, \<open>BadInitialCode\<close> in
  state \<open>FIRST\<close>. \<open>ReadFault\<close> is no return of the source: the process is stopped when
  \<^verbatim>\<open>memcpy\<close> reads through a pointer that cannot be read, as the null pointer of a zeroed
  cell of the table.
\<close>

datatype error = ExpectedClearCode | BadInitialCode | ReadFault

text \<open>
  The local variables of the decoder that live across iterations. A vector of
  \<^verbatim>\<open>uint16_t\<close> (\<^verbatim>\<open>lzw_codes\<close>, \<^verbatim>\<open>s\<close>, a table entry) is the list of its first
  \<^verbatim>\<open>elements\<close> values; every allocation of the decoder is taken to succeed.
  \<open>lzw_table\<close> is the storage behind \<^verbatim>\<open>lzw_table_ptr\<close>, one cell per allocated
  \<^verbatim>\<open>struct myvector\<close>: \<open>None\<close> is a cell that nothing has written since \<^verbatim>\<open>realloc\<close>
  added it (it holds what the memory held, see \<open>fresh\<close> below), \<open>Some []\<close> a zeroed cell
  (from \<^verbatim>\<open>calloc\<close>: no elements and the null pointer), \<open>Some e\<close> an entry with the
  values \<open>e\<close>. \<open>lzw_table_elements\<close> is the field
  \<^verbatim>\<open>lzw_table.elements\<close>; a clear code lowers it and leaves the cells as they are.
  \<open>s_vec\<close> is the vector \<^verbatim>\<open>s\<close>, \<open>mask16\<close> the variable \<^verbatim>\<open>mask\<close>.
\<close>

record lzw_state =
  csize :: nat
  mask16 :: "16 word"
  flag :: t_status
  oldcode :: "16 word"
  lzw_table :: "16 word list option list"
  lzw_table_elements :: nat
  lzw_codes :: "16 word list"
  s_vec :: "16 word list"
  offset :: nat
  ind :: "32 word"

definition CLEAR :: "nat \<Rightarrow> 16 word" where
  "CLEAR lzw_code_size = push_bit lzw_code_size 1"

definition EOI :: "nat \<Rightarrow> 16 word" where
  "EOI lzw_code_size = CLEAR lzw_code_size + 1"

definition MAX_CSIZE :: nat where
  "MAX_CSIZE = 12"

text \<open>
  The state before the loop: the table holds the one-element entries \<open>[i]\<close> for
  \<open>i \<le> EOI\<close>, in a storage of \<open>max 10 (2 ^ lzw_code_size + 2)\<close> zeroed cells
  (\<^verbatim>\<open>myv_init\<close> with \<^verbatim>\<open>fixed = false\<close>). \<^verbatim>\<open>oldcode\<close> is not initialised by the source;
  it is assigned at the end of every iteration and first read in state \<open>NORMAL\<close>.
\<close>

definition LZW_init :: "nat \<Rightarrow> lzw_state" where
  "LZW_init lzw_code_size =
     (let el = 2 ^ lzw_code_size + 2
      in \<lparr>csize = lzw_code_size + 1,
          mask16 = push_bit (lzw_code_size + 1) 1 - 1,
          flag = MUSTCLEAR,
          oldcode = 0,
          lzw_table = map (\<lambda>i. Some [of_nat i]) [0..<el] @ replicate (10 - el) (Some []),
          lzw_table_elements = el,
          lzw_codes = [],
          s_vec = [],
          offset = 0,
          ind = 0\<rparr>)"

text \<open>
  \<^verbatim>\<open>memcpy (&accumulator, bytes + ind, 3)\<close>: the three bytes at \<open>ind\<close>, \<open>ind + 1\<close>,
  \<open>ind + 2\<close> become the low three bytes of the accumulator; its top byte is always
  zero. \<open>bytes\<close> is the memory at the pointer the caller passes, a function of the
  offset: the loop reads up to the offset \<open>len + 2\<close>, past the \<open>len\<close> bytes of the buffer.
\<close>

definition accumulate :: "(nat \<Rightarrow> 8 word) \<Rightarrow> 32 word \<Rightarrow> 32 word" where
  "accumulate bytes i =
     ucast (bytes (unat i)) OR push_bit 8 (ucast (bytes (unat i + 1)))
       OR push_bit 16 (ucast (bytes (unat i + 2)))"

definition read_code :: "(nat \<Rightarrow> 8 word) \<Rightarrow> lzw_state \<Rightarrow> 16 word" where
  "read_code bytes st = ucast (drop_bit (offset st) (accumulate bytes (ind st)) AND ucast (mask16 st))"

text \<open>\<^verbatim>\<open>while (offset >= 8) { offset -= 8; ind++; }\<close>\<close>

function skip_bytes :: "nat \<Rightarrow> 32 word \<Rightarrow> nat \<times> 32 word" where
  "skip_bytes off i = (if 8 \<le> off then skip_bytes (off - 8) (i + 1) else (off, i))"
  by pat_completeness auto
termination
  by (relation "measure (\<lambda>(off, i). off)") auto

declare skip_bytes.simps [simp del]

definition slot :: "16 word list option list \<Rightarrow> nat \<Rightarrow> 16 word list option" where
  "slot tbl i = (if i < length tbl then tbl ! i else None)"

text \<open>
  The decoder does not compare a code with the size of the table before it indexes
  \<^verbatim>\<open>lzw_table_ptr\<close> with it, so it can read a cell that nothing has written: a cell that
  \<^verbatim>\<open>realloc\<close> added, or a cell past the allocated ones. What it finds there is what the
  memory holds, a parameter \<open>fresh\<close> of the decoder as the memory at \<^verbatim>\<open>bytes\<close> is one:
  \<open>fresh i\<close> is the content of the cell of index \<open>i\<close> as long as the decoder has not written
  it (it is taken not to change until then), given by the value of its field
  \<^verbatim>\<open>elements\<close> and by the \<^verbatim>\<open>uint16_t\<close> values in the memory at its field \<^verbatim>\<open>ptr\<close>, \<open>None\<close>
  when that memory cannot be read. In a memory filled with zeros (\<open>zero_filled\<close>) such a
  cell has no elements and the null pointer; in the memory \<open>holding e\<close> it is a vector of
  the values \<open>e\<close>.
\<close>

type_synonym cell = "nat \<times> (nat \<Rightarrow> 16 word) option"

definition zero_filled :: "nat \<Rightarrow> cell" where
  "zero_filled i = (0, None)"

definition holding :: "16 word list \<Rightarrow> nat \<Rightarrow> cell" where
  "holding e i = (length e, Some (\<lambda>k. if k < length e then e ! k else 0))"

text \<open>
  What \<^verbatim>\<open>memcpy\<close> takes from such a cell: its \<^verbatim>\<open>elements\<close> values (nothing is read when
  there are none), and the one value at its pointer.
\<close>

definition vector_of :: "cell \<Rightarrow> 16 word list option" where
  "vector_of c = (if fst c = 0 then Some [] else map_option (\<lambda>m. map m [0..<fst c]) (snd c))"

definition first_of :: "cell \<Rightarrow> 16 word option" where
  "first_of c = map_option (\<lambda>m. m 0) (snd c)"

text \<open>
  The two ways the decoder reads the cell \<open>i\<close> of the table. \<open>cell_vector\<close> is the pair
  \<^verbatim>\<open>lzw_table_ptr[i].elements\<close>, \<^verbatim>\<open>lzw_table_ptr[i].ptr\<close> given to \<^verbatim>\<open>myv_append\<close>, and the
  vector that \<^verbatim>\<open>myv_copy\<close> copies: the values of the cell. \<open>cell_first\<close> is
  \<^verbatim>\<open>(uint16_t *)lzw_table_ptr[i].ptr\<close> given to \<^verbatim>\<open>myv_append\<close> with the count 1: the
  first value, read through the pointer, which is null in a zeroed cell.
\<close>

definition cell_vector :: "(nat \<Rightarrow> cell) \<Rightarrow> 16 word list option list \<Rightarrow> nat \<Rightarrow> 16 word list option" where
  "cell_vector fresh tbl i =
     (case slot tbl i of
        Some e \<Rightarrow> Some e
      | None \<Rightarrow> vector_of (fresh i))"

definition cell_first :: "(nat \<Rightarrow> cell) \<Rightarrow> 16 word list option list \<Rightarrow> nat \<Rightarrow> 16 word option" where
  "cell_first fresh tbl i =
     (case slot tbl i of
        Some e \<Rightarrow> (case e of [] \<Rightarrow> None | x # _ \<Rightarrow> Some x)
      | None \<Rightarrow> first_of (fresh i))"

text \<open>
  Lines 199 to 201: \<^verbatim>\<open>myv_append(&lzw_table, 1, &myv_null)\<close> grows the storage by
  \<open>max 1 elements\<close> cells when it is full, writes the null vector at index
  \<open>elements\<close> and counts it; \<^verbatim>\<open>myv_init\<close> and \<^verbatim>\<open>myv_copy\<close> then make that cell a copy of
  \<open>s\<close>.
\<close>

definition table_insert :: "16 word list \<Rightarrow> lzw_state \<Rightarrow> lzw_state" where
  "table_insert e st =
     (let n = lzw_table_elements st;
          tbl = (if length (lzw_table st) < n + 1
                 then lzw_table st @ replicate (max 1 n) None else lzw_table st)
      in st\<lparr>lzw_table := tbl[n := Some e], lzw_table_elements := n + 1\<rparr>)"

text \<open>Lines 202 to 209: the width grows, or the decoder becomes \<open>DEFERRED\<close>.\<close>

definition widen :: "lzw_state \<Rightarrow> lzw_state" where
  "widen st =
     (if lzw_table_elements st = 2 ^ csize st then
        (if csize st < MAX_CSIZE
         then st\<lparr>csize := csize st + 1, mask16 := push_bit (csize st + 1) 1 - 1\<rparr>
         else st\<lparr>flag := DEFERRED\<rparr>)
      else st)"

text \<open>
  How a trip through the body of the loop ends: at the end of the body, at the
  \<^verbatim>\<open>break\<close>, or with an \<open>error\<close> (a \<^verbatim>\<open>return 0\<close>, or the read fault that stops the process).
\<close>

datatype outcome = Continue lzw_state | Break lzw_state | Return0 error

text \<open>
  Lines 187 to 198, in the branch of a code that is neither \<open>EOI\<close> nor \<open>CLEAR\<close> in state
  \<open>NORMAL\<close> or \<open>DEFERRED\<close>: the three-way choice that appends to the output and, outside
  \<open>DEFERRED\<close>, rebuilds \<open>s\<close>, the calls in the order of the source. No branch tests that
  the cell it reads was written.
\<close>

definition emit :: "(nat \<Rightarrow> cell) \<Rightarrow> 16 word \<Rightarrow> lzw_state \<Rightarrow> error + lzw_state" where
  "emit fresh code st =
     (if flag st = DEFERRED then
        (case cell_vector fresh (lzw_table st) (unat code) of
           None \<Rightarrow> Inl ReadFault
         | Some e \<Rightarrow> Inr (st\<lparr>lzw_codes := lzw_codes st @ e\<rparr>))
      else if unat code < lzw_table_elements st then
        (case cell_vector fresh (lzw_table st) (unat code) of
           None \<Rightarrow> Inl ReadFault
         | Some e \<Rightarrow>
             (case cell_vector fresh (lzw_table st) (unat (oldcode st)) of
                None \<Rightarrow> Inl ReadFault
              | Some old \<Rightarrow>
                  (case cell_first fresh (lzw_table st) (unat code) of
                     None \<Rightarrow> Inl ReadFault
                   | Some x \<Rightarrow> Inr (st\<lparr>lzw_codes := lzw_codes st @ e, s_vec := old @ [x]\<rparr>))))
      else
        (case cell_vector fresh (lzw_table st) (unat (oldcode st)) of
           None \<Rightarrow> Inl ReadFault
         | Some old \<Rightarrow>
             (case cell_first fresh (lzw_table st) (unat (oldcode st)) of
                None \<Rightarrow> Inl ReadFault
              | Some x \<Rightarrow> Inr (st\<lparr>lzw_codes := lzw_codes st @ old @ [x], s_vec := old @ [x]\<rparr>))))"

text \<open>
  Lines 186 to 210: the insertion of lines 199 to 201 and the test of line 202 follow
  the three-way choice whatever the state, \<open>DEFERRED\<close> included.
\<close>

definition data_code :: "(nat \<Rightarrow> cell) \<Rightarrow> 16 word \<Rightarrow> lzw_state \<Rightarrow> error + lzw_state" where
  "data_code fresh code st =
     (case emit fresh code st of
        Inl err \<Rightarrow> Inl err
      | Inr st1 \<Rightarrow> Inr (widen (table_insert (s_vec st1) st1)))"

text \<open>One trip through the body of the loop, lines 152 to 211.\<close>

definition LZW_body :: "(nat \<Rightarrow> cell) \<Rightarrow> nat \<Rightarrow> (nat \<Rightarrow> 8 word) \<Rightarrow> lzw_state \<Rightarrow> outcome" where
  "LZW_body fresh lzw_code_size bytes st =
     (let code = read_code bytes st;
          (off, i) = skip_bytes (offset st + csize st) (ind st);
          st0 = st\<lparr>offset := off, ind := i\<rparr>
      in if flag st0 \<noteq> NORMAL \<and> flag st0 \<noteq> DEFERRED then
           (if flag st0 = MUSTCLEAR then
              (if code \<noteq> CLEAR lzw_code_size then Return0 ExpectedClearCode
               else Continue (st0\<lparr>flag := FIRST, oldcode := code\<rparr>))
            else
              (if code < CLEAR lzw_code_size
               then Continue (st0\<lparr>lzw_codes := lzw_codes st0 @ [code], flag := NORMAL, oldcode := code\<rparr>)
               else Return0 BadInitialCode))
         else if code = EOI lzw_code_size then Break st0
         else if code = CLEAR lzw_code_size then
           Continue (st0\<lparr>lzw_table_elements := 2 ^ lzw_code_size + 2,
                         csize := lzw_code_size + 1,
                         mask16 := push_bit (lzw_code_size + 1) 1 - 1,
                         flag := FIRST, oldcode := code\<rparr>)
         else
           (case data_code fresh code st0 of
              Inl err \<Rightarrow> Return0 err
            | Inr st1 \<Rightarrow> Continue (st1\<lparr>oldcode := code\<rparr>)))"

text \<open>
  The loop \<^verbatim>\<open>while (ind <= len)\<close> and what follows it: both the \<^verbatim>\<open>break\<close> at \<open>EOI\<close> and the
  end of the loop reach \<^verbatim>\<open>return &lzw_codes\<close>, the address of the local vector; the result
  \<open>Inr\<close> is that return, with the values the vector holds then. A run that never leaves
  the loop is the value \<open>None\<close>.
\<close>

partial_function (option) LZW_loop ::
  "(nat \<Rightarrow> cell) \<Rightarrow> nat \<Rightarrow> 32 word \<Rightarrow> (nat \<Rightarrow> 8 word) \<Rightarrow> lzw_state \<Rightarrow> (error + 16 word list) option" where
  "LZW_loop fresh lzw_code_size len bytes st =
     (if ind st \<le> len then
        (case LZW_body fresh lzw_code_size bytes st of
           Return0 err \<Rightarrow> Some (Inl err)
         | Break st' \<Rightarrow> Some (Inr (lzw_codes st'))
         | Continue st' \<Rightarrow> LZW_loop fresh lzw_code_size len bytes st')
      else Some (Inr (lzw_codes st)))"

declare LZW_loop.simps [code]

definition LZWAlgorythm ::
  "(nat \<Rightarrow> cell) \<Rightarrow> nat \<Rightarrow> 32 word \<Rightarrow> (nat \<Rightarrow> 8 word) \<Rightarrow> (error + 16 word list) option" where
  "LZWAlgorythm fresh lzw_code_size len bytes =
     LZW_loop fresh lzw_code_size len bytes (LZW_init lzw_code_size)"

subsection \<open>Runs of the loop, and the notions the properties are stated with\<close>

text \<open>
  The first \<open>n\<close> trips through the loop, started in \<open>st\<close>: still \<open>Running\<close> in the state
  reached, stopped by the \<^verbatim>\<open>break\<close> at \<open>EOI\<close>, stopped by the loop condition
  (\<open>Exhausted\<close>: \<open>ind\<close> is past \<open>len\<close>), or \<open>Failed\<close>, by a \<^verbatim>\<open>return 0\<close> or by a read
  fault. The decoder itself does not tell \<open>AtEOI\<close> from \<open>Exhausted\<close>: it returns the
  address of \<^verbatim>\<open>lzw_codes\<close> after both.
\<close>

datatype progress = Running lzw_state | AtEOI lzw_state | Exhausted lzw_state | Failed error

fun LZW_run ::
  "(nat \<Rightarrow> cell) \<Rightarrow> nat \<Rightarrow> 32 word \<Rightarrow> (nat \<Rightarrow> 8 word) \<Rightarrow> nat \<Rightarrow> lzw_state \<Rightarrow> progress" where
  "LZW_run fresh lzw_code_size len bytes 0 st = Running st"
| "LZW_run fresh lzw_code_size len bytes (Suc n) st =
     (if ind st \<le> len then
        (case LZW_body fresh lzw_code_size bytes st of
           Return0 err \<Rightarrow> Failed err
         | Break st' \<Rightarrow> AtEOI st'
         | Continue st' \<Rightarrow> LZW_run fresh lzw_code_size len bytes n st')
      else Exhausted st)"

text \<open>The position after a code of \<open>csize\<close> bits: what \<open>skip_bytes\<close> computes.\<close>

definition advance :: "lzw_state \<Rightarrow> lzw_state" where
  "advance st = st\<lparr>offset := (offset st + csize st) mod 8,
                     ind := ind st + of_nat ((offset st + csize st) div 8)\<rparr>"

text \<open>
  The memory at \<^verbatim>\<open>bytes\<close>: the bytes \<open>bs\<close> of the buffer, followed by whatever the
  memory \<open>rest\<close> holds past them; \<open>filled b\<close> is a memory that holds the byte \<open>b\<close>
  everywhere.
\<close>

definition filled :: "8 word \<Rightarrow> nat \<Rightarrow> 8 word" where
  "filled b i = b"

definition buffer :: "8 word list \<Rightarrow> (nat \<Rightarrow> 8 word) \<Rightarrow> nat \<Rightarrow> 8 word" where
  "buffer bs rest i = (if i < length bs then bs ! i else rest i)"

text \<open>
  Bit packing as the specification describes it for the reader: each code with its
  width, least significant bit first, the codes one after the other, the last byte
  filled with zero bits. A stream is a list of pairs (code, width).
\<close>

definition code_bits :: "nat \<times> nat \<Rightarrow> bool list" where
  "code_bits cw = map (bit (fst cw)) [0..<snd cw]"

definition byte_of_bits :: "bool list \<Rightarrow> 8 word" where
  "byte_of_bits bs = horner_sum of_bool 2 bs"

fun pack_bits :: "nat \<Rightarrow> bool list \<Rightarrow> 8 word list" where
  "pack_bits 0 bs = []"
| "pack_bits (Suc n) bs = byte_of_bits (take 8 bs) # pack_bits n (drop 8 bs)"

definition pack :: "(nat \<times> nat) list \<Rightarrow> 8 word list" where
  "pack cws = (let bs = concat (map code_bits cws) in pack_bits ((length bs + 7) div 8) bs)"

text \<open>An entry or an output made of colour indices only, each below the clear code.\<close>

definition literal :: "nat \<Rightarrow> 16 word list \<Rightarrow> bool" where
  "literal lzw_code_size e = list_all (\<lambda>v. v < CLEAR lzw_code_size) e"

text \<open>
  What holds of the position and the width in every state a run reaches, for a code
  size from 2 to 8.
\<close>

definition width_inv :: "nat \<Rightarrow> lzw_state \<Rightarrow> bool" where
  "width_inv lzw_code_size st =
     (lzw_code_size + 1 \<le> csize st \<and> csize st \<le> 12 \<and> mask16 st = mask (csize st) \<and>
      offset st < 8)"

text \<open>
  What holds of the table, the width and the vectors in every state a run reaches:
  the size of the table against the width (per state of the decoder), the literal
  entries at their places, and entries below the size written and not empty.
\<close>

definition LZW_inv :: "nat \<Rightarrow> lzw_state \<Rightarrow> bool" where
  "LZW_inv lzw_code_size st =
     (width_inv lzw_code_size st \<and>
      2 ^ lzw_code_size + 2 \<le> lzw_table_elements st \<and>
      lzw_table_elements st \<le> length (lzw_table st) \<and>
      (flag st = MUSTCLEAR \<or> flag st = FIRST \<longrightarrow>
         csize st = lzw_code_size + 1 \<and> lzw_table_elements st = 2 ^ lzw_code_size + 2) \<and>
      (flag st = NORMAL \<longrightarrow>
         lzw_table_elements st < 2 ^ csize st \<and> unat (oldcode st) \<noteq> 2 ^ lzw_code_size \<and>
         unat (oldcode st) \<noteq> 2 ^ lzw_code_size + 1) \<and>
      (flag st = DEFERRED \<longrightarrow>
         csize st = 12 \<and> 2 ^ 12 \<le> lzw_table_elements st \<and> s_vec st \<noteq> []) \<and>
      (\<forall>i < 2 ^ lzw_code_size. lzw_table st ! i = Some [of_nat i]) \<and>
      (\<forall>i < lzw_table_elements st. \<exists>x e. lzw_table st ! i = Some (x # e)))"

text \<open>
  The code that the trip started in \<open>st\<close> reads lies in the first \<open>m\<close> bytes of the
  memory; and the same for every code of the first \<open>n\<close> trips of a run, read with the
  mask of its width.
\<close>

definition within :: "nat \<Rightarrow> lzw_state \<Rightarrow> bool" where
  "within m st = (8 * unat (ind st) + offset st + csize st \<le> 8 * m)"

fun reads_within ::
  "(nat \<Rightarrow> cell) \<Rightarrow> nat \<Rightarrow> nat \<Rightarrow> 32 word \<Rightarrow> (nat \<Rightarrow> 8 word) \<Rightarrow> nat \<Rightarrow> lzw_state \<Rightarrow> bool" where
  "reads_within fresh m lzw_code_size len bytes 0 st = True"
| "reads_within fresh m lzw_code_size len bytes (Suc n) st =
     (if ind st \<le> len then
        within m st \<and> mask16 st = mask (csize st) \<and>
        (case LZW_body fresh lzw_code_size bytes st of
           Continue st' \<Rightarrow> reads_within fresh m lzw_code_size len bytes n st'
         | _ \<Rightarrow> True)
      else True)"

section \<open>Properties\<close>

subsection \<open>The loop body, case by case\<close>

lemma skip_bytes_eq: "skip_bytes off i = (off mod 8, i + of_nat (off div 8))"
proof (induction off i rule: skip_bytes.induct)
  case (1 off i)
  show ?case
  proof (cases "8 \<le> off")
    case True
    then have "off div 8 = Suc ((off - 8) div 8)" "(off - 8) mod 8 = off mod 8"
      by (simp_all add: le_div_geq le_mod_geq)
    with True 1 show ?thesis
      by (subst skip_bytes.simps) (simp add: add.assoc)
  next
    case False
    then show ?thesis by (subst skip_bytes.simps) simp
  qed
qed

lemma LZW_body_eq:
  "LZW_body fresh cs bytes st =
     (let code = read_code bytes st; st0 = advance st
      in if flag st = MUSTCLEAR then
           (if code \<noteq> CLEAR cs then Return0 ExpectedClearCode
            else Continue (st0\<lparr>flag := FIRST, oldcode := code\<rparr>))
         else if flag st = FIRST then
           (if code < CLEAR cs
            then Continue (st0\<lparr>lzw_codes := lzw_codes st @ [code], flag := NORMAL, oldcode := code\<rparr>)
            else Return0 BadInitialCode)
         else if code = EOI cs then Break st0
         else if code = CLEAR cs then
           Continue (st0\<lparr>lzw_table_elements := 2 ^ cs + 2, csize := cs + 1,
                         mask16 := push_bit (cs + 1) 1 - 1, flag := FIRST, oldcode := code\<rparr>)
         else (case data_code fresh code st0 of Inl err \<Rightarrow> Return0 err
               | Inr st1 \<Rightarrow> Continue (st1\<lparr>oldcode := code\<rparr>)))"
  unfolding LZW_body_def skip_bytes_eq advance_def Let_def prod.case
  by (cases "flag st") simp_all

subsection \<open>Facts about the machine words\<close>

lemma unat_2p16: "n < 16 \<Longrightarrow> unat (2 ^ n :: 16 word) = 2 ^ n"
proof -
  assume a: "n < 16"
  have "(2 ^ n :: 16 word) = of_nat (2 ^ n)" by simp
  then have "unat (2 ^ n :: 16 word) = 2 ^ n mod 2 ^ 16"
    by (simp only: unat_of_nat) simp
  moreover have "(2::nat) ^ n < 2 ^ 16" using a by (simp only: power_strict_increasing_iff)
  ultimately show ?thesis by simp
qed

lemma unat_CLEAR: "cs < 16 \<Longrightarrow> unat (CLEAR cs) = 2 ^ cs"
  by (simp only: CLEAR_def push_bit_of_1 unat_2p16)

lemma unat_EOI: "cs < 15 \<Longrightarrow> unat (EOI cs) = 2 ^ cs + 1"
proof -
  assume a: "cs < 15"
  then have "(2::nat) ^ cs < 2 ^ 15" by (simp only: power_strict_increasing_iff)
  then have "(2::nat) ^ cs + 1 < 2 ^ 16" by simp
  moreover have "unat (CLEAR cs) = 2 ^ cs" using a by (simp add: unat_CLEAR)
  ultimately show ?thesis
    by (simp add: EOI_def unat_word_ariths)
qed

lemma less_CLEAR_iff: "cs < 16 \<Longrightarrow> (c < CLEAR cs) = (unat c < 2 ^ cs)"
  by (simp add: word_less_nat_alt unat_CLEAR)

lemma mask16_eq: "(push_bit n 1 - 1 :: 16 word) = mask n"
  by (simp add: mask_eq_exp_minus_1)

lemma mask16_eq': "(2 * 2 ^ n - 1 :: 16 word) = mask (Suc n)"
  by (simp add: mask_eq_exp_minus_1)

lemma and_mask_less16: "unat ((w :: 16 word) AND mask n) < 2 ^ n"
  by (metis and_mask_lt_2p of_nat_less_numeral_power_cancel_iff of_nat_unat)

lemma read_code_less: "mask16 st = mask (csize st) \<Longrightarrow> unat (read_code bytes st) < 2 ^ csize st"
proof -
  assume m: "mask16 st = mask (csize st)"
  have "read_code bytes st = ucast (drop_bit (offset st) (accumulate bytes (ind st))) AND mask (csize st)"
    by (simp add: read_code_def m bit_eq_iff bit_simps) 
  then show ?thesis by (simp only: and_mask_less16)
qed

subsection \<open>The fields an operation leaves unchanged\<close>

lemma advance_fields [simp]:
  "csize (advance st) = csize st" "mask16 (advance st) = mask16 st" "flag (advance st) = flag st"
  "oldcode (advance st) = oldcode st" "lzw_table (advance st) = lzw_table st"
  "lzw_table_elements (advance st) = lzw_table_elements st" "lzw_codes (advance st) = lzw_codes st"
  "s_vec (advance st) = s_vec st" "offset (advance st) = (offset st + csize st) mod 8"
  "ind (advance st) = ind st + of_nat ((offset st + csize st) div 8)"
  by (simp_all add: advance_def)

lemma table_insert_fields [simp]:
  "csize (table_insert e st) = csize st" "mask16 (table_insert e st) = mask16 st"
  "flag (table_insert e st) = flag st" "oldcode (table_insert e st) = oldcode st"
  "lzw_table_elements (table_insert e st) = lzw_table_elements st + 1"
  "lzw_codes (table_insert e st) = lzw_codes st" "s_vec (table_insert e st) = s_vec st"
  "offset (table_insert e st) = offset st" "ind (table_insert e st) = ind st"
  by (simp_all add: table_insert_def Let_def)

lemma table_insert_length:
  "lzw_table_elements st \<le> length (lzw_table st) \<Longrightarrow>
   lzw_table_elements st + 1 \<le> length (lzw_table (table_insert e st)) \<and>
   length (lzw_table st) \<le> length (lzw_table (table_insert e st))"
  by (auto simp add: table_insert_def Let_def max_def)

lemma table_insert_nth:
  "lzw_table_elements st \<le> length (lzw_table st) \<Longrightarrow> i < length (lzw_table (table_insert e st)) \<Longrightarrow>
   lzw_table (table_insert e st) ! i =
     (if i = lzw_table_elements st then Some e
      else if i < length (lzw_table st) then lzw_table st ! i else None)"
  by (auto simp add: table_insert_def Let_def nth_append nth_list_update)

lemma widen_fields [simp]:
  "oldcode (widen st) = oldcode st" "lzw_table (widen st) = lzw_table st"
  "lzw_table_elements (widen st) = lzw_table_elements st" "lzw_codes (widen st) = lzw_codes st"
  "s_vec (widen st) = s_vec st" "offset (widen st) = offset st" "ind (widen st) = ind st"
  by (simp_all add: widen_def)

lemma emit_fields:
  assumes "emit fresh code st = Inr st1"
  shows "csize st1 = csize st" "mask16 st1 = mask16 st" "flag st1 = flag st"
    "oldcode st1 = oldcode st" "lzw_table st1 = lzw_table st"
    "lzw_table_elements st1 = lzw_table_elements st" "offset st1 = offset st" "ind st1 = ind st"
  using assms by (auto simp add: emit_def split: if_splits option.splits list.splits)

lemma data_code_fields:
  assumes "data_code fresh code st = Inr st2"
  shows "offset st2 = offset st" "ind st2 = ind st" "oldcode st2 = oldcode st"
    "lzw_table_elements st2 = lzw_table_elements st + 1"
  using assms by (auto simp add: data_code_def emit_fields split: sum.splits)

lemma data_code_width:
  assumes "data_code fresh code st = Inr st2"
  shows "(csize st2, mask16 st2, flag st2) =
     (if lzw_table_elements st + 1 = 2 ^ csize st then
        (if csize st < 12 then (csize st + 1, mask (csize st + 1), flag st)
         else (csize st, mask16 st, DEFERRED))
      else (csize st, mask16 st, flag st))"
  using assms
  by (auto simp add: data_code_def widen_def MAX_CSIZE_def mask16_eq mask16_eq' emit_fields split: sum.splits)

lemma body_fields:
  assumes "LZW_body fresh cs bytes st = Continue st'"
  shows "offset st' = (offset st + csize st) mod 8"
    "ind st' = ind st + of_nat ((offset st + csize st) div 8)"
    "oldcode st' = read_code bytes st"
  using assms
  by (auto simp add: LZW_body_eq Let_def data_code_fields split: if_splits sum.splits)

lemma body_width_inv:
  assumes "width_inv cs st" "LZW_body fresh cs bytes st = Continue st'" "cs \<le> 11"
  shows "width_inv cs st'"
  using assms
  apply (auto simp add: LZW_body_eq Let_def width_inv_def mask16_eq mask16_eq' data_code_fields split: if_splits sum.splits)
  apply (auto dest!: data_code_width split: if_splits)
  done

subsection \<open>Runs and the loop\<close>

lemma LZW_run_loop:
  "LZW_run fresh cs len bytes n st = Running st' \<Longrightarrow>
     LZW_loop fresh cs len bytes st = LZW_loop fresh cs len bytes st'"
  "LZW_run fresh cs len bytes n st = AtEOI st' \<Longrightarrow>
     LZW_loop fresh cs len bytes st = Some (Inr (lzw_codes st'))"
  "LZW_run fresh cs len bytes n st = Exhausted st' \<Longrightarrow>
     LZW_loop fresh cs len bytes st = Some (Inr (lzw_codes st'))"
  "LZW_run fresh cs len bytes n st = Failed err \<Longrightarrow>
     LZW_loop fresh cs len bytes st = Some (Inl err)"
proof (induction n arbitrary: st)
  case 0
  { case 1 then show ?case by simp }
  { case 2 then show ?case by simp }
  { case 3 then show ?case by simp }
  { case 4 then show ?case by simp }
next
  case (Suc n)
  { case 1 then show ?case
      by (subst LZW_loop.simps) (auto simp add: Suc.IH(1) split: if_splits outcome.splits) }
  { case 2 then show ?case
      by (subst LZW_loop.simps) (auto simp add: Suc.IH(2) split: if_splits outcome.splits) }
  { case 3 then show ?case
      by (subst LZW_loop.simps) (auto simp add: Suc.IH(3) split: if_splits outcome.splits) }
  { case 4 then show ?case
      by (subst LZW_loop.simps) (auto simp add: Suc.IH(4) split: if_splits outcome.splits) }
qed

lemma LZW_run_snoc:
  "LZW_run fresh cs len bytes (Suc n) st =
     (case LZW_run fresh cs len bytes n st of
        Running st' \<Rightarrow> LZW_run fresh cs len bytes (Suc 0) st'
      | r \<Rightarrow> r)"
proof (induction n arbitrary: st)
  case 0
  show ?case by simp
next
  case (Suc n)
  show ?case
  proof (cases "ind st \<le> len")
    case False
    then show ?thesis by simp
  next
    case True
    show ?thesis
    proof (cases "LZW_body fresh cs bytes st")
      case (Continue st1)
      have l: "LZW_run fresh cs len bytes (Suc (Suc n)) st = LZW_run fresh cs len bytes (Suc n) st1"
        using True Continue by (simp only: LZW_run.simps if_True outcome.case)
      have r: "LZW_run fresh cs len bytes (Suc n) st = LZW_run fresh cs len bytes n st1"
        using True Continue by (simp only: LZW_run.simps if_True outcome.case)
      note l
      also have "LZW_run fresh cs len bytes (Suc n) st1 =
          (case LZW_run fresh cs len bytes n st1 of
             Running st' \<Rightarrow> LZW_run fresh cs len bytes (Suc 0) st' | r \<Rightarrow> r)"
        by (rule Suc.IH)
      also have "\<dots> =
          (case LZW_run fresh cs len bytes (Suc n) st of
             Running st' \<Rightarrow> LZW_run fresh cs len bytes (Suc 0) st' | r \<Rightarrow> r)"
        by (simp only: r)
      finally show ?thesis .
    next
      case (Break st1)
      then show ?thesis using True by simp
    next
      case (Return0 err)
      then show ?thesis using True by simp
    qed
  qed
qed

lemma LZW_run_invariant:
  assumes step: "\<And>s s'. P s \<Longrightarrow> LZW_body fresh cs bytes s = Continue s' \<Longrightarrow> P s'"
    and "P st"
  shows "LZW_run fresh cs len bytes n st = Running st' \<Longrightarrow> P st'"
    and "LZW_run fresh cs len bytes n st = Exhausted st' \<Longrightarrow> P st'"
    and "LZW_run fresh cs len bytes n st = AtEOI st' \<Longrightarrow>
           \<exists>s. P s \<and> LZW_body fresh cs bytes s = Break st'"
  using \<open>P st\<close>
proof (induction n arbitrary: st)
  case 0
  { case 1 then show ?case by simp }
  { case 2 then show ?case by simp }
  { case 3 then show ?case by simp }
next
  case (Suc n)
  { case 1 then show ?case
      using Suc.IH(1) step by (auto split: if_splits outcome.splits) }
  { case 2 then show ?case
      using Suc.IH(2) step by (auto split: if_splits outcome.splits) }
  { case 3 then show ?case
      using Suc.IH(3) step by (auto split: if_splits outcome.splits) }
qed

subsection \<open>Termination\<close>

lemma unat_ind_step:
  fixes i len :: "32 word"
  assumes "i \<le> len" "unat len + 2 < 2 ^ 32" "k \<le> 2"
  shows "unat (i + of_nat k) = unat i + k"
proof -
  have "unat i \<le> unat len" using assms(1) by (simp add: word_le_nat_alt)
  then have b: "unat i + k < 2 ^ 32" using assms by simp
  have "unat (i + of_nat k) = (unat i + k mod 2 ^ 32) mod 2 ^ 32"
    by (simp add: unat_word_ariths unat_of_nat)
  also have "\<dots> = unat i + k" using b assms(3) by simp
  finally show ?thesis .
qed

lemma body_position:
  assumes "width_inv cs st" "LZW_body fresh cs bytes st = Continue st'"
    "ind st \<le> len" "unat len + 2 < 2 ^ 32"
  shows "8 * unat (ind st') + offset st' = 8 * unat (ind st) + offset st + csize st"
proof -
  have w: "offset st < 8" "csize st \<le> 12" using assms(1) by (simp_all add: width_inv_def)
  then have "(offset st + csize st) div 8 \<le> 2" by simp
  then have "unat (ind st + of_nat ((offset st + csize st) div 8))
      = unat (ind st) + (offset st + csize st) div 8"
    using assms(3,4) by (rule unat_ind_step[rotated 2])
  then show ?thesis
    by (simp add: body_fields[OF assms(2)])
qed

lemma LZW_loop_terminates:
  assumes "cs \<le> 11" "unat len + 2 < 2 ^ 32"
  shows "width_inv cs st \<Longrightarrow> \<exists>r. LZW_loop fresh cs len bytes st = Some r"
proof (induction "8 * unat len + 8 - (8 * unat (ind st) + offset st)" arbitrary: st
    rule: less_induct)
  case less
  show ?case
  proof (cases "ind st \<le> len")
    case False
    then show ?thesis by (subst LZW_loop.simps) simp
  next
    case True
    show ?thesis
    proof (cases "LZW_body fresh cs bytes st")
      case (Continue st')
      have w': "width_inv cs st'"
        using less.prems Continue assms(1) by (rule body_width_inv)
      have p: "8 * unat (ind st') + offset st' = 8 * unat (ind st) + offset st + csize st"
        using less.prems Continue True assms(2) by (rule body_position)
      have "1 \<le> csize st" "offset st < 8" using less.prems by (simp_all add: width_inv_def)
      moreover have "unat (ind st) \<le> unat len" using True by (simp add: word_le_nat_alt)
      ultimately have "8 * unat len + 8 - (8 * unat (ind st') + offset st')
          < 8 * unat len + 8 - (8 * unat (ind st) + offset st)"
        using p by simp
      then have "\<exists>r. LZW_loop fresh cs len bytes st' = Some r"
        using w' by (rule less.hyps)
      then show ?thesis
        using True Continue by (subst LZW_loop.simps) simp
    next
      case (Break st')
      then show ?thesis using True by (subst LZW_loop.simps) simp
    next
      case (Return0 err)
      then show ?thesis using True by (subst LZW_loop.simps) simp
    qed
  qed
qed

lemma width_inv_init: "width_inv cs (LZW_init cs) = (cs \<le> 11)"
  by (auto simp add: width_inv_def LZW_init_def Let_def mask16_eq mask16_eq')

lemma LZWAlgorythm_terminates:
  assumes "cs \<le> 11" "unat len + 2 < 2 ^ 32"
  shows "\<exists>r. LZWAlgorythm fresh cs len bytes = Some r"
  unfolding LZWAlgorythm_def
  using assms by (intro LZW_loop_terminates) (simp_all add: width_inv_init)

subsection \<open>A run that never ends\<close>

lemma read_code_all8:
  "mask16 st = 15 \<Longrightarrow> offset st = 0 \<Longrightarrow> read_code (\<lambda>_. 8) st = 8"
  "mask16 st = 15 \<Longrightarrow> offset st = 4 \<Longrightarrow> read_code (\<lambda>_. 8) st = 0"
  by (simp_all add: read_code_def accumulate_def)

lemma all8_step:
  assumes "csize st = 4 \<and> mask16 st = 15 \<and>
    (flag st = MUSTCLEAR \<and> offset st = 0 \<or> flag st = FIRST \<and> offset st = 4 \<or>
     flag st = NORMAL \<and> offset st = 0)"
  shows "\<exists>st'. LZW_body fresh 3 (\<lambda>_. 8) st = Continue st' \<and> csize st' = 4 \<and> mask16 st' = 15 \<and>
    (flag st' = MUSTCLEAR \<and> offset st' = 0 \<or> flag st' = FIRST \<and> offset st' = 4 \<or>
     flag st' = NORMAL \<and> offset st' = 0)"
  using assms
  by (auto simp add: LZW_body_eq Let_def read_code_all8 CLEAR_def EOI_def)

lemma all8_never_returns:
  assumes ret: "LZW_loop fresh 3 4294967295 (\<lambda>_. 8) st = Some r"
    and inv: "csize st = 4 \<and> mask16 st = 15 \<and>
      (flag st = MUSTCLEAR \<and> offset st = 0 \<or> flag st = FIRST \<and> offset st = 4 \<or>
       flag st = NORMAL \<and> offset st = 0)"
  shows False
proof -
  let ?K = "\<lambda>st. csize st = 4 \<and> mask16 st = 15 \<and>
      (flag st = MUSTCLEAR \<and> offset st = 0 \<or> flag st = FIRST \<and> offset st = 4 \<or>
       flag st = NORMAL \<and> offset st = 0)"
  have "(3::nat) = 3 \<longrightarrow> (4294967295 :: 32 word) = 4294967295 \<longrightarrow>
        (\<lambda>_. 8 :: 8 word) = (\<lambda>_::nat. 8) \<longrightarrow> ?K st \<longrightarrow> False"
  proof (rule LZW_loop.raw_induct [where P = "\<lambda>fresh cs len bytes st r.
      cs = 3 \<longrightarrow> len = 4294967295 \<longrightarrow> bytes = (\<lambda>_. 8) \<longrightarrow> ?K st \<longrightarrow> False", OF _ ret])
    fix loop :: "(nat \<Rightarrow> cell) \<Rightarrow> nat \<Rightarrow> 32 word \<Rightarrow> (nat \<Rightarrow> 8 word) \<Rightarrow> lzw_state \<Rightarrow> (error + 16 word list) option"
    fix fresh cs len bytes st r
    assume IH: "\<And>fresh cs len bytes st r. loop fresh cs len bytes st = Some r \<Longrightarrow>
        cs = 3 \<longrightarrow> len = 4294967295 \<longrightarrow> bytes = (\<lambda>_. 8) \<longrightarrow> ?K st \<longrightarrow> False"
    assume eq: "(if ind st \<le> len
         then case LZW_body fresh cs bytes st of
              Continue st' \<Rightarrow> loop fresh cs len bytes st'
            | Break st' \<Rightarrow> Some (Inr (lzw_codes st'))
            | Return0 err \<Rightarrow> Some (Inl err)
         else Some (Inr (lzw_codes st))) = Some r"
    show "cs = 3 \<longrightarrow> len = 4294967295 \<longrightarrow> bytes = (\<lambda>_. 8) \<longrightarrow> ?K st \<longrightarrow> False"
    proof (intro impI)
      assume a: "cs = 3" "len = 4294967295" "bytes = (\<lambda>_. 8)" "?K st"
      have "unat (ind st) < 2 ^ 32"
        using unsigned_less [of "ind st", where ?'a = nat] by simp
      then have le: "ind st \<le> len"
        using a(2) by (simp add: word_le_nat_alt)
      obtain st' where st': "LZW_body fresh 3 (\<lambda>_. 8) st = Continue st'" "?K st'"
        using all8_step [OF a(4)] by blast
      have "loop fresh cs len bytes st' = Some r"
        using eq le st'(1) a(1,3) by simp
      then show False using IH a(1,2,3) st'(2) by blast
    qed
  qed
  then show False using inv by simp
qed

text \<open>
  Claim C9: for every input buffer of every length and every code size from 2 to 8 the
  decoder terminates. The loop index \<^verbatim>\<open>ind\<close> is an \<^verbatim>\<open>unsigned int\<close>: with
  \<open>len = 4294967295\<close> the test \<^verbatim>\<open>ind <= len\<close> never fails and \<^verbatim>\<open>ind++\<close> wraps to 0.
  For the code size 3 and a memory whose every byte is \<open>0x08\<close> the codes read are in
  turn the clear code 8 and the literal 0, for ever: the call never returns (a call
  with \<open>len + 2 < 2 ^ 32\<close> does return, by \<open>LZWAlgorythm_terminates\<close>).
\<close>

theorem LZWAlgorythm_never_returns_at_max_len:
  "LZWAlgorythm fresh 3 4294967295 (filled 8) = None"
proof (cases "LZWAlgorythm fresh 3 4294967295 (filled 8)")
  case None
  then show ?thesis .
next
  case (Some r)
  have "filled 8 = (\<lambda>_. 8)"
    by (simp add: filled_def fun_eq_iff)
  then have "LZW_loop fresh 3 4294967295 (\<lambda>_. 8) (LZW_init 3) = Some r"
    using Some by (simp add: LZWAlgorythm_def)
  then have False
    by (rule all8_never_returns) (simp add: LZW_init_def Let_def)
  then show ?thesis ..
qed

subsection \<open>The growable vector\<close>

lemma unat_ucast_32_64: "unat (ucast (w :: 32 word) :: 64 word) = unat w"
proof -
  have "unat w < 2 ^ 32"
    using unsigned_less [of w, where ?'a = nat] by simp
  then have "unat w < 2 ^ 64" by simp
  then show ?thesis
    by (simp add: unsigned_ucast_eq take_bit_nat_eq_self)
qed

lemma myv_init_ok: "myv_ok (myv_init p el_sz el fixed)"
  by (auto simp add: myv_ok_def myv_init_def Let_def MIN_ALLOC_def unat_ucast_32_64 word_le_nat_alt)

lemma myv_clear_ok: "myv_ok (myv_clear v)"
  by (simp add: myv_ok_def myv_clear_def)

lemma myv_realloc_ok: "myv_ok v \<Longrightarrow> myv_ok (myv_realloc p v alloc_el)"
  by (auto simp add: myv_ok_def myv_realloc_def unat_ucast_32_64 word_less_nat_alt)

lemma myv_append_ok:
  assumes "myv_ok v"
  shows "myv_ok (myv_append p v new_el)"
proof (cases "ptr v \<noteq> 0")
  case False
  then show ?thesis using assms by (simp add: myv_append_def)
next
  case True
  let ?sum = "elements v + new_el"
  have sum_le: "unat ?sum \<le> unat (elements v) + unat new_el"
    by (simp add: unat_word_ariths)
  show ?thesis
  proof (cases "alloc_elements v < ucast ?sum")
    case False
    then have "unat ?sum \<le> unat (alloc_elements v)"
      by (simp add: word_less_nat_alt unat_ucast_32_64)
    then show ?thesis using True False
      by (simp add: myv_append_def Let_def myv_ok_def)
  next
    case grow: True
    let ?al = "if new_el < elements v then elements v else new_el"
    have a32: "unat (alloc_elements v) < 2 ^ 32"
    proof -
      have "unat (alloc_elements v) < unat ?sum"
        using grow by (simp add: word_less_nat_alt unat_ucast_32_64)
      moreover have "unat ?sum < 2 ^ 32"
        using unsigned_less [of ?sum, where ?'a = nat] by simp
      ultimately show ?thesis by simp
    qed
    have al32: "unat ?al < 2 ^ 32"
      using unsigned_less [of ?al, where ?'a = nat] by simp
    have "unat (alloc_elements v + ucast ?al) = unat (alloc_elements v) + unat ?al"
    proof -
      have "unat (alloc_elements v) + unat ?al < 2 ^ 64" using a32 al32 by simp
      then show ?thesis
        by (simp only: unat_word_ariths unat_ucast_32_64) simp
    qed
    moreover have "unat (elements v) + unat new_el \<le> unat (alloc_elements v) + unat ?al"
      using assms by (auto simp add: myv_ok_def word_less_nat_alt)
    ultimately have "unat ?sum \<le> unat (alloc_elements v + ucast ?al)"
      using sum_le by simp
    then show ?thesis using True grow
      by (simp add: myv_append_def Let_def myv_ok_def)
  qed
qed

lemma myv_copy_ok: "myv_ok (myv_copy p v_to v_from)"
proof -
  have "myv_ok (v_to\<lparr>elements := 0\<rparr>)" by (simp add: myv_ok_def)
  then show ?thesis
    by (simp add: myv_copy_def Let_def myv_append_ok)
qed

text \<open>
  Claim C10: every operation of the vector (\<^verbatim>\<open>myv_init\<close>, \<^verbatim>\<open>myv_clear\<close>, \<^verbatim>\<open>myv_realloc\<close>,
  \<^verbatim>\<open>myv_append\<close>, \<^verbatim>\<open>myv_copy\<close>) leaves the logical length within the capacity
  (\<open>elements \<le> alloc_elements\<close>) when it held before, and when the allocation of the
  call fails (the allocator returns the null pointer \<open>p = 0\<close>) both fields are 0.
  \<^verbatim>\<open>myv_realloc\<close> allocates when the vector has storage; \<^verbatim>\<open>myv_append\<close> (and through it
  \<^verbatim>\<open>myv_copy\<close>) when the vector has storage and the new length exceeds the capacity.
\<close>

theorem myvector_elements_within_capacity:
  assumes "myv_ok v"
  shows "myv_ok (myv_init p el_sz el fixed) \<and>
         myv_ok (myv_clear v) \<and>
         myv_ok (myv_realloc p v alloc_el) \<and>
         myv_ok (myv_append p v new_el) \<and>
         myv_ok (myv_copy p v v_from) \<and>
         (p = 0 \<longrightarrow>
            elements (myv_init p el_sz el fixed) = 0 \<and>
            alloc_elements (myv_init p el_sz el fixed) = 0) \<and>
         (p = 0 \<and> ptr v \<noteq> 0 \<longrightarrow>
            elements (myv_realloc p v alloc_el) = 0 \<and>
            alloc_elements (myv_realloc p v alloc_el) = 0) \<and>
         (p = 0 \<and> ptr v \<noteq> 0 \<and> alloc_elements v < ucast (elements v + new_el) \<longrightarrow>
            elements (myv_append p v new_el) = 0 \<and>
            alloc_elements (myv_append p v new_el) = 0) \<and>
         (p = 0 \<and> ptr v \<noteq> 0 \<and> elements v_from \<noteq> 0 \<and>
          alloc_elements v < ucast (elements v_from) \<longrightarrow>
            elements (myv_copy p v v_from) = 0 \<and>
            alloc_elements (myv_copy p v v_from) = 0)"
proof -
  have "p = 0 \<longrightarrow>
      elements (myv_init p el_sz el fixed) = 0 \<and> alloc_elements (myv_init p el_sz el fixed) = 0"
    by (simp add: myv_init_def Let_def)
  moreover have "p = 0 \<and> ptr v \<noteq> 0 \<longrightarrow>
      elements (myv_realloc p v alloc_el) = 0 \<and> alloc_elements (myv_realloc p v alloc_el) = 0"
    by (simp add: myv_realloc_def)
  moreover have "p = 0 \<and> ptr v \<noteq> 0 \<and> alloc_elements v < ucast (elements v + new_el) \<longrightarrow>
      elements (myv_append p v new_el) = 0 \<and> alloc_elements (myv_append p v new_el) = 0"
    by (simp add: myv_append_def Let_def)
  moreover have "p = 0 \<and> ptr v \<noteq> 0 \<and> elements v_from \<noteq> 0 \<and>
      alloc_elements v < ucast (elements v_from) \<longrightarrow>
      elements (myv_copy p v v_from) = 0 \<and> alloc_elements (myv_copy p v v_from) = 0"
    by (simp add: myv_copy_def myv_append_def Let_def)
  ultimately show ?thesis
    using assms
    by (simp only: myv_init_ok myv_clear_ok myv_realloc_ok myv_append_ok myv_copy_ok simp_thms)
qed

text \<open>
  A vector of ten cells and no element: appending eleven elements grows it to 21 cells
  when \<^verbatim>\<open>realloc\<close> succeeds, and leaves it with no element and no cell when it fails.
\<close>

theorem myvector_elements_within_capacity_witness:
  "myv_ok (myv_init 1 2 0 False) \<and>
   alloc_elements (myv_init 1 2 0 False) = 10 \<and>
   myv_ok (myv_append 5 (myv_init 1 2 0 False) 11) \<and>
   elements (myv_append 5 (myv_init 1 2 0 False) 11) = 11 \<and>
   alloc_elements (myv_append 5 (myv_init 1 2 0 False) 11) = 21 \<and>
   elements (myv_append 0 (myv_init 1 2 0 False) 11) = 0 \<and>
   alloc_elements (myv_append 0 (myv_init 1 2 0 False) 11) = 0"
proof -
  have ok: "myv_ok (myv_init 1 2 0 False)"
    by (simp add: myv_ok_def myv_init_def MIN_ALLOC_def)
  have grown: "elements (myv_append 5 (myv_init 1 2 0 False) 11) = 11 \<and>
      alloc_elements (myv_append 5 (myv_init 1 2 0 False) 11) = 21 \<and>
      alloc_elements (myv_init 1 2 0 False) = 10"
    by (simp add: myv_append_def myv_init_def MIN_ALLOC_def)
  have pre: "(0::nat) = 0 \<and> ptr (myv_init 1 2 0 False) \<noteq> 0 \<and>
      alloc_elements (myv_init 1 2 0 False) < ucast (elements (myv_init 1 2 0 False) + 11)"
    by (simp add: myv_init_def MIN_ALLOC_def)
  show ?thesis
    using myvector_elements_within_capacity [OF ok, of 5 2 0 False 5 11 "myv_init 1 2 0 False"]
      myvector_elements_within_capacity [OF ok, of 0 2 0 False 5 11 "myv_init 1 2 0 False"]
      grown pre ok
    by blast
qed

subsection \<open>The bytes a run depends on\<close>

lemma bit_accumulate:
  "bit (accumulate bytes i) p =
     (p < 24 \<and> bit (bytes (unat i + p div 8)) (p mod 8))"
proof -
  have *: "bit (accumulate bytes i) p =
    (p < 8 \<and> bit (bytes (unat i)) p \<or>
     8 \<le> p \<and> p < 16 \<and> bit (bytes (unat i + 1)) (p - 8) \<or>
     16 \<le> p \<and> p < 24 \<and> bit (bytes (unat i + 2)) (p - 16))"
    by (auto simp add: accumulate_def bit_simps dest: bit_imp_le_length)
  consider "p < 8" | "8 \<le> p" "p < 16" | "16 \<le> p" "p < 24" | "24 \<le> p"
    by linarith
  then show ?thesis
  proof cases
    case 1
    then show ?thesis by (simp add: *)
  next
    case 2
    then have "p div 8 = 1" "p mod 8 = p - 8" by (simp_all add: div_nat_eqI mod_if le_mod_geq)
    then show ?thesis using 2 by (simp add: *)
  next
    case 3
    then have "p div 8 = 2" "p mod 8 = p - 16"
      by (simp_all add: div_nat_eqI mod_eq_dvd_iff_nat) presburger
    then show ?thesis using 3 by (simp add: *)
  next
    case 4
    then show ?thesis by (simp add: *)
  qed
qed

lemma bit_read_code:
  "mask16 st = mask (csize st) \<Longrightarrow>
   bit (read_code bytes st) j =
     (j < 16 \<and> j < csize st \<and> bit (accumulate bytes (ind st)) (offset st + j))"
  by (auto simp add: read_code_def bit_simps)

lemma read_code_agree:
  assumes "\<forall>i<m. bytes i = bytes' i" "within m st" "mask16 st = mask (csize st)"
  shows "read_code bytes st = read_code bytes' st"
proof (rule bit_eqI)
  fix j
  show "bit (read_code bytes st) j = bit (read_code bytes' st) j"
  proof (cases "j < csize st")
    case False
    then show ?thesis by (simp add: bit_read_code assms(3))
  next
    case True
    let ?p = "offset st + j"
    have "8 * unat (ind st) + ?p < 8 * m"
      using True assms(2) by (simp add: within_def)
    then have "unat (ind st) + ?p div 8 < m" by simp
    then have "bytes (unat (ind st) + ?p div 8) = bytes' (unat (ind st) + ?p div 8)"
      using assms(1) by simp
    then show ?thesis by (simp add: bit_read_code assms(3) bit_accumulate)
  qed
qed

lemma LZW_body_agree:
  assumes "\<forall>i<m. bytes i = bytes' i" "within m st" "mask16 st = mask (csize st)"
  shows "LZW_body fresh cs bytes st = LZW_body fresh cs bytes' st"
  by (simp only: LZW_body_eq read_code_agree [OF assms])

lemma LZW_run_agree:
  assumes "\<forall>i<m. bytes i = bytes' i"
  shows "reads_within fresh m cs len bytes n st \<Longrightarrow>
    LZW_run fresh cs len bytes' n st = LZW_run fresh cs len bytes n st"
proof (induction n arbitrary: st)
  case 0
  show ?case by simp
next
  case (Suc n)
  show ?case
  proof (cases "ind st \<le> len")
    case False
    then show ?thesis by simp
  next
    case True
    then have w: "within m st" "mask16 st = mask (csize st)"
      using Suc.prems by simp_all
    have b: "LZW_body fresh cs bytes st = LZW_body fresh cs bytes' st"
      using assms w by (rule LZW_body_agree)
    show ?thesis
    proof (cases "LZW_body fresh cs bytes st")
      case (Continue st')
      then have "reads_within fresh m cs len bytes n st'"
        using Suc.prems True by simp
      then have "LZW_run fresh cs len bytes' n st' = LZW_run fresh cs len bytes n st'"
        by (rule Suc.IH)
      then show ?thesis using True Continue b by simp
    next
      case (Break st')
      then show ?thesis using True b by simp
    next
      case (Return0 err)
      then show ?thesis using True b by simp
    qed
  qed
qed

lemma buffer_agree: "\<forall>i<length bs. buffer bs rest i = buffer bs rest' i"
  by (simp add: buffer_def)

subsection \<open>Streams decoded\<close>

lemma LZWAlgorythm_agree:
  assumes "reads_within fresh (length bs) cs len (buffer bs rest') n (LZW_init cs)"
    and "LZW_run fresh cs len (buffer bs rest') n (LZW_init cs) = r"
  shows "LZW_run fresh cs len (buffer bs rest) n (LZW_init cs) = r"
  using LZW_run_agree [OF buffer_agree assms(1), of rest] assms(2) by simp

lemma LZWAlgorythm_run:
  "LZW_run fresh cs len bytes n (LZW_init cs) = AtEOI st \<Longrightarrow>
     LZWAlgorythm fresh cs len bytes = Some (Inr (lzw_codes st))"
  "LZW_run fresh cs len bytes n (LZW_init cs) = Exhausted st \<Longrightarrow>
     LZWAlgorythm fresh cs len bytes = Some (Inr (lzw_codes st))"
  "LZW_run fresh cs len bytes n (LZW_init cs) = Failed err \<Longrightarrow>
     LZWAlgorythm fresh cs len bytes = Some (Inl err)"
  by (simp_all add: LZWAlgorythm_def LZW_run_loop)

lemma clear_eoi_two_trips:
  assumes c: "read_code bytes (LZW_init cs) = CLEAR cs"
    and e: "read_code bytes ((advance (LZW_init cs))\<lparr>flag := FIRST, oldcode := CLEAR cs\<rparr>) = EOI cs"
    and l: "ind (advance (LZW_init cs)) \<le> len" and "cs < 15"
  shows "LZW_run fresh cs len bytes 2 (LZW_init cs) = Failed BadInitialCode"
proof -
  have i: "ind (LZW_init cs) \<le> len" by (simp add: LZW_init_def Let_def)
  have 1: "LZW_body fresh cs bytes (LZW_init cs) =
      Continue ((advance (LZW_init cs))\<lparr>flag := FIRST, oldcode := CLEAR cs\<rparr>)"
    using c by (simp add: LZW_body_eq Let_def LZW_init_def)
  have "\<not> EOI cs < CLEAR cs"
    using \<open>cs < 15\<close> by (simp add: word_less_nat_alt unat_CLEAR unat_EOI)
  then have 2: "LZW_body fresh cs bytes ((advance (LZW_init cs))\<lparr>flag := FIRST, oldcode := CLEAR cs\<rparr>) =
      Return0 BadInitialCode"
    using e by (simp add: LZW_body_eq Let_def)
  show ?thesis
    using i l 1 2 by (simp add: numeral_2_eq_2)
qed

lemma clear_eoi_packed:
  "\<forall>cs \<in> {2, 3, 4, 5, 6, 7, 8}. pack [(2 ^ cs, cs + 1), (2 ^ cs + 1, cs + 1)] =
     [[44], [152], [48, 2], [96, 8], [192, 32], [128, 129], [0, 3, 2]] ! (cs - 2)"
  by code_simp

lemma clear_eoi_codes:
  assumes "cs \<in> {2, 3, 4, 5, 6, 7, 8}"
  shows "read_code (buffer (pack [(2 ^ cs, cs + 1), (2 ^ cs + 1, cs + 1)]) (filled 0))
           (LZW_init cs) = CLEAR cs"
    and "read_code (buffer (pack [(2 ^ cs, cs + 1), (2 ^ cs + 1, cs + 1)]) (filled 0))
           ((advance (LZW_init cs))\<lparr>flag := FIRST, oldcode := CLEAR cs\<rparr>) = EOI cs"
    and "within (length (pack [(2 ^ cs, cs + 1), (2 ^ cs + 1, cs + 1)])) (LZW_init cs)"
    and "within (length (pack [(2 ^ cs, cs + 1), (2 ^ cs + 1, cs + 1)]))
           ((advance (LZW_init cs))\<lparr>flag := FIRST, oldcode := CLEAR cs\<rparr>)"
    and "ind (advance (LZW_init cs))
           \<le> of_nat (length (pack [(2 ^ cs, cs + 1), (2 ^ cs + 1, cs + 1)]))"
proof -
  show "read_code (buffer (pack [(2 ^ cs, cs + 1), (2 ^ cs + 1, cs + 1)]) (filled 0))
      (LZW_init cs) = CLEAR cs"
    using assms clear_eoi_packed
    by (auto simp add: read_code_def accumulate_def buffer_def filled_def LZW_init_def Let_def
        CLEAR_def EOI_def)
  show "read_code (buffer (pack [(2 ^ cs, cs + 1), (2 ^ cs + 1, cs + 1)]) (filled 0))
      ((advance (LZW_init cs))\<lparr>flag := FIRST, oldcode := CLEAR cs\<rparr>) = EOI cs"
    using assms clear_eoi_packed
    by (auto simp add: read_code_def accumulate_def buffer_def filled_def LZW_init_def Let_def
        CLEAR_def EOI_def advance_def)
  show "within (length (pack [(2 ^ cs, cs + 1), (2 ^ cs + 1, cs + 1)])) (LZW_init cs)"
    using assms clear_eoi_packed
    by (auto simp add: within_def LZW_init_def Let_def)
  show "within (length (pack [(2 ^ cs, cs + 1), (2 ^ cs + 1, cs + 1)]))
      ((advance (LZW_init cs))\<lparr>flag := FIRST, oldcode := CLEAR cs\<rparr>)"
    using assms clear_eoi_packed
    by (auto simp add: within_def LZW_init_def Let_def advance_def)
  show "ind (advance (LZW_init cs))
      \<le> of_nat (length (pack [(2 ^ cs, cs + 1), (2 ^ cs + 1, cs + 1)]))"
    using assms clear_eoi_packed
    by (auto simp add: LZW_init_def Let_def advance_def)
qed

text \<open>
  Claim C4, as amended: for every code size from 2 to 8 the two-code stream
  \<open>[ClearCode, EndCode]\<close>, packed at the width \<open>CodeSize + 1\<close>, does not decode to
  the empty output: the decoder returns 0 at the second code, in state \<open>FIRST\<close>, where
  only a literal below the clear code is accepted (\<open>BadInitialCode\<close>), whatever the
  memory holds past the buffer.
\<close>

theorem clear_then_eoi_is_bad_initial_code:
  assumes "2 \<le> cs" "cs \<le> 8"
  shows "LZWAlgorythm fresh cs (of_nat (length (pack [(2 ^ cs, cs + 1), (2 ^ cs + 1, cs + 1)])))
           (buffer (pack [(2 ^ cs, cs + 1), (2 ^ cs + 1, cs + 1)]) rest)
         = Some (Inl BadInitialCode)"
proof -
  let ?bs = "pack [(2 ^ cs, cs + 1), (2 ^ cs + 1, cs + 1)]"
  let ?st1 = "(advance (LZW_init cs))\<lparr>flag := FIRST, oldcode := CLEAR cs\<rparr>"
  have cs: "cs \<in> {2, 3, 4, 5, 6, 7, 8}" using assms by auto
  have m: "mask16 (LZW_init cs) = mask (csize (LZW_init cs))" "mask16 ?st1 = mask (csize ?st1)"
    by (simp_all add: LZW_init_def Let_def mask16_eq mask16_eq')
  have "read_code (buffer ?bs rest) (LZW_init cs) = read_code (buffer ?bs (filled 0)) (LZW_init cs)"
    using buffer_agree clear_eoi_codes(3) [OF cs] m(1) by (rule read_code_agree)
  then have c: "read_code (buffer ?bs rest) (LZW_init cs) = CLEAR cs"
    by (simp only: clear_eoi_codes(1) [OF cs])
  have "read_code (buffer ?bs rest) ?st1 = read_code (buffer ?bs (filled 0)) ?st1"
    using buffer_agree clear_eoi_codes(4) [OF cs] m(2) by (rule read_code_agree)
  then have e: "read_code (buffer ?bs rest) ?st1 = EOI cs"
    by (simp only: clear_eoi_codes(2) [OF cs])
  have "cs < 15" using assms by simp
  with c e clear_eoi_codes(5) [OF cs]
  have "LZW_run fresh cs (of_nat (length ?bs)) (buffer ?bs rest) 2 (LZW_init cs) = Failed BadInitialCode"
    by (rule clear_eoi_two_trips)
  then show ?thesis by (rule LZWAlgorythm_run(3))
qed

text \<open>The code size 8: the two codes 256 and 257 at width 9 are the bytes 00 03 02.\<close>

theorem clear_then_eoi_is_bad_initial_code_witness:
  "LZWAlgorythm zero_filled 8 3 (buffer [0, 3, 2] (filled 255)) = Some (Inl BadInitialCode)"
proof -
  have p: "pack [(2 ^ 8, 8 + 1), (2 ^ 8 + 1, 8 + 1)] = [0, 3, 2]"
    by code_simp
  have "(2::nat) \<le> 8" "(8::nat) \<le> 8" by simp_all
  then have "LZWAlgorythm zero_filled 8 (of_nat (length [0, 3, 2 :: 8 word])) (buffer [0, 3, 2] (filled 255))
      = Some (Inl BadInitialCode)"
    using clear_then_eoi_is_bad_initial_code [where cs = 8 and fresh = zero_filled and rest = "filled 255"]
    by (simp only: p)
  then show ?thesis by simp
qed

text \<open>
  Claim C4 as stated fails: for the code size 2 the stream \<open>[4, 5]\<close> at width 3 does not
  succeed with the empty output, it fails.
\<close>

theorem clear_then_eoi_counterexample:
  "LZWAlgorythm zero_filled 2 1 (buffer (pack [(4, 3), (5, 3)]) (filled 0)) = Some (Inl BadInitialCode)"
  by code_simp

text \<open>
  Claim C5, as amended: with the code size 2 the codes \<open>[4, 0, 1, 2]\<close> packed at width 3
  followed by the codes \<open>[3, 5]\<close> packed at width 4 decode to \<open>[0, 1, 2, 3]\<close>, whatever
  the memory holds past the three bytes of the buffer. The fourth code fills the table
  to \<open>8 = 2 ^ 3\<close> entries, so the decoder reads the fifth and the sixth code with four
  bits.
\<close>

theorem widths_3_then_4_decode_to_0123:
  "LZWAlgorythm fresh 2 3 (buffer (pack [(4, 3), (0, 3), (1, 3), (2, 3), (3, 4), (5, 4)]) rest)
     = Some (Inr [0, 1, 2, 3])"
proof -
  have p: "pack [(4, 3), (0, 3), (1, 3), (2, 3), (3, 4), (5, 4)] = [0x44, 0x34, 0x05]"
    by code_simp
  have w: "reads_within fresh (length [0x44, 0x34, 0x05 :: 8 word]) 2 3
      (buffer [0x44, 0x34, 0x05] (filled 0)) 6 (LZW_init 2)"
    by code_simp
  have r: "LZW_run fresh 2 3 (buffer [0x44, 0x34, 0x05] (filled 0)) 6 (LZW_init 2) =
    AtEOI \<lparr>csize = 4, mask16 = 15, flag = NORMAL, oldcode = 3,
      lzw_table = [Some [0], Some [1], Some [2], Some [3], Some [4], Some [5],
                   Some [0, 1], Some [1, 2], Some [2, 3], Some []],
      lzw_table_elements = 9, lzw_codes = [0, 1, 2, 3], s_vec = [2, 3], offset = 4, ind = 2\<rparr>"
    by code_simp
  have "LZWAlgorythm fresh 2 3 (buffer [0x44, 0x34, 0x05] rest) = Some (Inr [0, 1, 2, 3])"
    using LZWAlgorythm_run(1) [OF LZWAlgorythm_agree [OF w r, of rest]] by simp
  then show ?thesis by (simp only: p)
qed

text \<open>
  Claim C5 as stated fails: when all six codes \<open>[4, 0, 1, 2, 3, 5]\<close> are packed at width
  3 (the bytes 44 B4 02), the decoder reads the fifth code with four bits, as 11, and
  the output is not \<open>[0, 1, 2, 3]\<close>.
\<close>

theorem width_3_packing_counterexample:
  "pack [(4, 3), (0, 3), (1, 3), (2, 3), (3, 3), (5, 3)] = [0x44, 0xB4, 0x02] \<and>
   LZWAlgorythm zero_filled 2 3 (buffer (pack [(4, 3), (0, 3), (1, 3), (2, 3), (3, 3), (5, 3)]) (filled 0))
     \<noteq> Some (Inr [0, 1, 2, 3]) \<and>
   LZW_run zero_filled 2 3 (buffer [0x44, 0xB4, 0x02] (filled 0)) 5 (LZW_init 2) =
     Running \<lparr>csize = 4, mask16 = 15, flag = NORMAL, oldcode = 11,
       lzw_table = [Some [0], Some [1], Some [2], Some [3], Some [4], Some [5],
                    Some [0, 1], Some [1, 2], Some [2, 2], Some []],
       lzw_table_elements = 9, lzw_codes = [0, 1, 2, 2, 2], s_vec = [2, 2], offset = 0, ind = 2\<rparr>"
  by code_simp

text \<open>
  Claim C3: in state \<open>NORMAL\<close> a code greater than the size of the table fails with
  \<open>UnknownCode\<close>. The decoder has no such test: the last branch of lines 189 to 198
  takes every code that is not below the size. With the code size 2 and the stream
  \<open>[4, 0, 7, 5]\<close> at width 3 (the bytes C4 0B), the code 7 is read when the table holds 6
  entries; the decoder appends \<open>[0, 0]\<close> and returns \<open>[0, 0, 0]\<close>.
\<close>

theorem code_above_table_size_is_decoded:
  "pack [(4, 3), (0, 3), (7, 3), (5, 3)] = [0xC4, 0x0B] \<and>
   LZW_run fresh 2 2 (buffer [0xC4, 0x0B] (filled 0)) 2 (LZW_init 2) =
     Running \<lparr>csize = 3, mask16 = 7, flag = NORMAL, oldcode = 0,
       lzw_table = [Some [0], Some [1], Some [2], Some [3], Some [4], Some [5],
                    Some [], Some [], Some [], Some []],
       lzw_table_elements = 6, lzw_codes = [0], s_vec = [], offset = 6, ind = 0\<rparr> \<and>
   read_code (buffer [0xC4, 0x0B] (filled 0))
     \<lparr>csize = 3, mask16 = 7, flag = NORMAL, oldcode = 0,
       lzw_table = [Some [0], Some [1], Some [2], Some [3], Some [4], Some [5],
                    Some [], Some [], Some [], Some []],
       lzw_table_elements = 6, lzw_codes = [0], s_vec = [], offset = 6, ind = 0\<rparr> = 7 \<and>
   LZWAlgorythm fresh 2 2 (buffer [0xC4, 0x0B] (filled 0)) = Some (Inr [0, 0, 0])"
  by code_simp

text \<open>
  Claim C2: a buffer that is exhausted before an end code is read fails with
  \<open>TruncatedStream\<close>. The decoder does not test that a code lies in the buffer: the loop
  runs while \<^verbatim>\<open>ind <= len\<close>, and \<^verbatim>\<open>memcpy\<close> takes three bytes at \<^verbatim>\<open>bytes + ind\<close>, so the
  codes after the last byte are read from the memory behind the buffer. With the code
  size 2 and the one-byte buffer 04 (the clear code and the literal 0 at width 3, no
  end code), the loop is left by its condition with \<open>ind = 2\<close>, and the call returns
  the address of \<^verbatim>\<open>lzw_codes\<close> with \<open>[0, 0, 0, 0]\<close> when zero bytes follow the buffer, with
  \<open>[0, 0, 0, 2]\<close> when bytes 01 follow, with \<open>[0, 0]\<close> at an end code read in the bytes 0A
  that follow, and returns 0 for a bad code when bytes FF follow. No run ends with an
  error for the truncated stream.
\<close>

theorem truncated_buffer_is_read_past_its_end:
  "pack [(4, 3), (0, 3)] = [0x04] \<and>
   LZW_run fresh 2 1 (buffer [0x04] (filled 0)) 6 (LZW_init 2) =
     Exhausted \<lparr>csize = 4, mask16 = 15, flag = NORMAL, oldcode = 0,
       lzw_table = [Some [0], Some [1], Some [2], Some [3], Some [4], Some [5],
                    Some [0, 0], Some [0, 0], Some [0, 0], Some []],
       lzw_table_elements = 9, lzw_codes = [0, 0, 0, 0], s_vec = [0, 0], offset = 0, ind = 2\<rparr> \<and>
   LZWAlgorythm fresh 2 1 (buffer [0x04] (filled 0)) = Some (Inr [0, 0, 0, 0]) \<and>
   LZWAlgorythm fresh 2 1 (buffer [0x04] (filled 0x01)) = Some (Inr [0, 0, 0, 2]) \<and>
   LZWAlgorythm fresh 2 1 (buffer [0x04] (filled 0x0A)) = Some (Inr [0, 0]) \<and>
   LZWAlgorythm fresh 2 1 (buffer [0x04] (filled 0xFF)) = Some (Inl BadInitialCode)"
  by code_simp

subsection \<open>A cell that nothing has written\<close>

text \<open>
  The code size 2 and the stream \<open>[4, 0, 1, 2, 3, 0, 1, 15, 2, 12, 5]\<close>, the first four
  codes at width 3 and the others at width 4: the bytes 44 34 10 2F 5C. The code 15 is
  read when the table holds 11 entries, in a storage that \<^verbatim>\<open>realloc\<close> has just grown
  from 10 to 20 cells; the last branch of lines 189 to 198 takes it, and it becomes
  \<^verbatim>\<open>oldcode\<close>.
\<close>

lemma known_code_step:
  assumes "flag st = NORMAL"
    and "read_code bytes st \<noteq> EOI cs" and "read_code bytes st \<noteq> CLEAR cs"
    and "unat (read_code bytes st) < lzw_table_elements st"
    and "cell_vector fresh (lzw_table st) (unat (read_code bytes st)) = Some e"
    and "cell_vector fresh (lzw_table st) (unat (oldcode st)) = Some old"
    and "cell_first fresh (lzw_table st) (unat (read_code bytes st)) = Some x"
  shows "LZW_body fresh cs bytes st =
    Continue ((widen (table_insert (old @ [x])
      ((advance st)\<lparr>lzw_codes := lzw_codes st @ e, s_vec := old @ [x]\<rparr>)))
        \<lparr>oldcode := read_code bytes st\<rparr>)"
  using assms by (simp add: LZW_body_eq Let_def data_code_def emit_def)

lemma unwritten_codes:
  fixes rest :: "nat \<Rightarrow> 8 word"
  assumes "mask16 st = 15" "csize st = 4"
  shows "offset st = 4 \<Longrightarrow> ind st = 3 \<Longrightarrow>
      read_code (buffer [0x44, 0x34, 0x10, 0x2F, 0x5C] rest) st = 2"
    and "offset st = 0 \<Longrightarrow> ind st = 4 \<Longrightarrow>
      read_code (buffer [0x44, 0x34, 0x10, 0x2F, 0x5C] rest) st = 12"
    and "offset st = 4 \<Longrightarrow> ind st = 4 \<Longrightarrow>
      read_code (buffer [0x44, 0x34, 0x10, 0x2F, 0x5C] rest) st = 5"
proof -
  let ?bs = "[0x44, 0x34, 0x10, 0x2F, 0x5C] :: 8 word list"
  have m: "mask16 st = mask (csize st)" using assms by (simp add: mask_eq_exp_minus_1)
  have z: "read_code (buffer ?bs rest) st = read_code (buffer ?bs (filled 0)) st"
    if "within (length ?bs) st"
    using buffer_agree that m by (rule read_code_agree)
  show "offset st = 4 \<Longrightarrow> ind st = 3 \<Longrightarrow> read_code (buffer ?bs rest) st = 2"
    using assms
    by (subst z) (simp_all add: within_def read_code_def accumulate_def buffer_def filled_def)
  show "offset st = 0 \<Longrightarrow> ind st = 4 \<Longrightarrow> read_code (buffer ?bs rest) st = 12"
    using assms
    by (subst z) (simp_all add: within_def read_code_def accumulate_def buffer_def filled_def)
  show "offset st = 4 \<Longrightarrow> ind st = 4 \<Longrightarrow> read_code (buffer ?bs rest) st = 5"
    using assms
    by (subst z) (simp_all add: within_def read_code_def accumulate_def buffer_def filled_def)
qed

lemma unwritten_prefix:
  "LZW_run fresh 2 5 (buffer [0x44, 0x34, 0x10, 0x2F, 0x5C] rest) 8 (LZW_init 2) =
     Running \<lparr>csize = 4, mask16 = 15, flag = NORMAL, oldcode = 15,
       lzw_table = [Some [0], Some [1], Some [2], Some [3], Some [4], Some [5],
                    Some [0, 1], Some [1, 2], Some [2, 3], Some [3, 0], Some [0, 1],
                    Some [1, 1], None, None, None, None, None, None, None, None],
       lzw_table_elements = 12, lzw_codes = [0, 1, 2, 3, 0, 1, 1, 1],
       s_vec = [1, 1], offset = 4, ind = 3\<rparr>"
proof -
  let ?bs = "[0x44, 0x34, 0x10, 0x2F, 0x5C] :: 8 word list"
  have w: "reads_within fresh (length ?bs) 2 5 (buffer ?bs (filled 0)) 8 (LZW_init 2)"
    by code_simp
  have r: "LZW_run fresh 2 5 (buffer ?bs (filled 0)) 8 (LZW_init 2) =
     Running \<lparr>csize = 4, mask16 = 15, flag = NORMAL, oldcode = 15,
       lzw_table = [Some [0], Some [1], Some [2], Some [3], Some [4], Some [5],
                    Some [0, 1], Some [1, 2], Some [2, 3], Some [3, 0], Some [0, 1],
                    Some [1, 1], None, None, None, None, None, None, None, None],
       lzw_table_elements = 12, lzw_codes = [0, 1, 2, 3, 0, 1, 1, 1],
       s_vec = [1, 1], offset = 4, ind = 3\<rparr>"
    by code_simp
  show ?thesis using w r by (rule LZWAlgorythm_agree)
qed

text \<open>
  The next code, 2, is in the table: \<^verbatim>\<open>myv_copy(&s, lzw_table_ptr + oldcode)\<close> reads the
  cell 15, which nothing has written, and \<open>s\<close>, made of what that cell holds and of the
  value 2, becomes the entry 12. The code 12 then appends that entry to the output, and
  the code 5 ends the run.
\<close>

lemma unwritten_run:
  fixes rest :: "nat \<Rightarrow> 8 word"
  shows "LZWAlgorythm fresh 2 5 (buffer [0x44, 0x34, 0x10, 0x2F, 0x5C] rest) =
     (case vector_of (fresh 15) of
        None \<Rightarrow> Some (Inl ReadFault)
      | Some e \<Rightarrow> Some (Inr ([0, 1, 2, 3, 0, 1, 1, 1, 2] @ e @ [2])))"
proof -
  let ?bs = "[0x44, 0x34, 0x10, 0x2F, 0x5C] :: 8 word list"
  let ?B = "buffer ?bs rest"
  let ?st8 = "\<lparr>csize = 4, mask16 = 15, flag = NORMAL, oldcode = 15,
       lzw_table = [Some [0], Some [1], Some [2], Some [3], Some [4], Some [5],
                    Some [0, 1], Some [1, 2], Some [2, 3], Some [3, 0], Some [0, 1],
                    Some [1 :: 16 word, 1], None, None, None, None, None, None, None, None],
       lzw_table_elements = 12, lzw_codes = [0, 1, 2, 3, 0, 1, 1, 1],
       s_vec = [1, 1], offset = 4, ind = 3\<rparr>"
  have "LZW_run fresh 2 5 ?B 8 (LZW_init 2) = Running ?st8"
    by (rule unwritten_prefix)
  then have l8: "LZWAlgorythm fresh 2 5 ?B = LZW_loop fresh 2 5 ?B ?st8"
    unfolding LZWAlgorythm_def by (rule LZW_run_loop(1))
  have c9: "read_code ?B ?st8 = 2" by (rule unwritten_codes(1)) simp_all
  show ?thesis
  proof (cases "vector_of (fresh 15)")
    case None
    have "LZW_body fresh 2 ?B ?st8 = Return0 ReadFault"
      using None c9
      by (simp add: LZW_body_eq Let_def data_code_def emit_def cell_vector_def cell_first_def
          slot_def CLEAR_def EOI_def)
    then have "LZW_loop fresh 2 5 ?B ?st8 = Some (Inl ReadFault)"
      by (subst LZW_loop.simps) simp
    then show ?thesis using None l8 by simp
  next
    case (Some e)
    define st9 where "st9 = (widen (table_insert (e @ [2])
      ((advance ?st8)\<lparr>lzw_codes := lzw_codes ?st8 @ [2], s_vec := e @ [2]\<rparr>)))\<lparr>oldcode := 2\<rparr>"
    have b9: "LZW_body fresh 2 ?B ?st8 = Continue st9"
      unfolding st9_def
      using known_code_step [where st = ?st8 and bytes = ?B and cs = 2 and fresh = fresh
          and e = "[2]" and old = e and x = 2] Some c9
      by (simp add: cell_vector_def cell_first_def slot_def CLEAR_def EOI_def)
    have f9: "flag st9 = NORMAL" "csize st9 = 4" "mask16 st9 = 15" "offset st9 = 0" "ind st9 = 4"
      "oldcode st9 = 2" "lzw_table_elements st9 = 13"
      "lzw_codes st9 = [0, 1, 2, 3, 0, 1, 1, 1, 2]"
      "slot (lzw_table st9) 12 = Some (e @ [2])" "slot (lzw_table st9) 2 = Some [2]"
      unfolding st9_def
      by (simp_all add: slot_def widen_def table_insert_def advance_def Let_def)
    have c10: "read_code ?B st9 = 12" using f9 by (intro unwritten_codes(2)) simp_all
    obtain x r where xr: "e @ [2] = x # r" by (cases "e @ [2]") simp_all
    have x: "cell_first fresh (lzw_table st9) 12 = Some x"
      by (simp add: cell_first_def f9 xr)
    define st10 where "st10 = (widen (table_insert ([2] @ [x])
      ((advance st9)\<lparr>lzw_codes := lzw_codes st9 @ e @ [2], s_vec := [2] @ [x]\<rparr>)))\<lparr>oldcode := 12\<rparr>"
    have b10: "LZW_body fresh 2 ?B st9 = Continue st10"
      unfolding st10_def
      using known_code_step [where st = st9 and bytes = ?B and cs = 2 and fresh = fresh
          and e = "e @ [2]" and old = "[2]" and x = x] c10 x f9
      by (simp add: cell_vector_def CLEAR_def EOI_def)
    have f10: "flag st10 = NORMAL" "csize st10 = 4" "mask16 st10 = 15" "offset st10 = 4"
      "ind st10 = 4" "lzw_codes st10 = [0, 1, 2, 3, 0, 1, 1, 1, 2] @ e @ [2]"
      unfolding st10_def
      using f9 by (simp_all add: widen_def advance_def)
    have c11: "read_code ?B st10 = 5" using f10 by (intro unwritten_codes(3)) simp_all
    have b11: "LZW_body fresh 2 ?B st10 = Break (advance st10)"
      using c11 f10(1) by (simp add: LZW_body_eq Let_def EOI_def CLEAR_def)
    have "LZW_loop fresh 2 5 ?B st10 = Some (Inr (lzw_codes (advance st10)))"
      using b11 f10(5) by (subst LZW_loop.simps) simp
    then have "LZW_loop fresh 2 5 ?B st9 = Some (Inr (lzw_codes st10))"
      using b10 f9(5) by (subst LZW_loop.simps) simp
    then have "LZW_loop fresh 2 5 ?B ?st8 = Some (Inr (lzw_codes st10))"
      using b9 by (subst LZW_loop.simps) simp
    then show ?thesis using Some l8 f10(6) by simp
  qed
qed

text \<open>
  Claim C8: every value appended to the output is a colour index below the clear code.
  The decoder indexes the table with \<^verbatim>\<open>code\<close> and \<^verbatim>\<open>oldcode\<close> without comparing them with
  the cells that were written, so a cell that nothing has written can be copied into
  \<open>s\<close>, from there into the table and into the output. For the code size 2 and the
  bytes 44 34 10 2F 5C, after eight codes \<^verbatim>\<open>oldcode\<close> is 15 and the cell 15 is one that
  \<^verbatim>\<open>realloc\<close> added; the output of the call is \<open>[0, 1, 2, 3, 0, 1, 1, 1, 2]\<close>, then the
  values that this cell holds, whatever they are, then 2. When the cell holds the one
  value 65535 the output holds 65535, which is no colour index; in a memory filled with
  zeros the cell has no elements and the output is \<open>[0, 1, 2, 3, 0, 1, 1, 1, 2, 2]\<close>.
\<close>

theorem unwritten_cell_reaches_output:
  "pack [(4, 3), (0, 3), (1, 3), (2, 3), (3, 4), (0, 4), (1, 4), (15, 4), (2, 4), (12, 4), (5, 4)]
     = [0x44, 0x34, 0x10, 0x2F, 0x5C] \<and>
   LZW_run fresh 2 5 (buffer [0x44, 0x34, 0x10, 0x2F, 0x5C] rest) 8 (LZW_init 2) =
     Running \<lparr>csize = 4, mask16 = 15, flag = NORMAL, oldcode = 15,
       lzw_table = [Some [0], Some [1], Some [2], Some [3], Some [4], Some [5],
                    Some [0, 1], Some [1, 2], Some [2, 3], Some [3, 0], Some [0, 1],
                    Some [1, 1], None, None, None, None, None, None, None, None],
       lzw_table_elements = 12, lzw_codes = [0, 1, 2, 3, 0, 1, 1, 1],
       s_vec = [1, 1], offset = 4, ind = 3\<rparr> \<and>
   LZWAlgorythm fresh 2 5 (buffer [0x44, 0x34, 0x10, 0x2F, 0x5C] rest) =
     (case vector_of (fresh 15) of
        None \<Rightarrow> Some (Inl ReadFault)
      | Some e \<Rightarrow> Some (Inr ([0, 1, 2, 3, 0, 1, 1, 1, 2] @ e @ [2]))) \<and>
   LZWAlgorythm (holding [65535]) 2 5 (buffer [0x44, 0x34, 0x10, 0x2F, 0x5C] (filled 0)) =
     Some (Inr [0, 1, 2, 3, 0, 1, 1, 1, 2, 65535, 2]) \<and>
   \<not> literal 2 [0, 1, 2, 3, 0, 1, 1, 1, 2, 65535, 2] \<and>
   LZWAlgorythm zero_filled 2 5 (buffer [0x44, 0x34, 0x10, 0x2F, 0x5C] (filled 0)) =
     Some (Inr [0, 1, 2, 3, 0, 1, 1, 1, 2, 2])"
proof -
  have p: "pack [(4, 3), (0, 3), (1, 3), (2, 3), (3, 4), (0, 4), (1, 4), (15, 4), (2, 4),
      (12, 4), (5, 4)] = [0x44, 0x34, 0x10, 0x2F, 0x5C]"
    by code_simp
  have h: "LZWAlgorythm (holding [65535]) 2 5 (buffer [0x44, 0x34, 0x10, 0x2F, 0x5C] (filled 0)) =
      Some (Inr [0, 1, 2, 3, 0, 1, 1, 1, 2, 65535, 2])"
    by code_simp
  have l: "\<not> literal 2 [0, 1, 2, 3, 0, 1, 1, 1, 2, 65535, 2]"
    by code_simp
  have z: "LZWAlgorythm zero_filled 2 5 (buffer [0x44, 0x34, 0x10, 0x2F, 0x5C] (filled 0)) =
      Some (Inr [0, 1, 2, 3, 0, 1, 1, 1, 2, 2])"
    by code_simp
  show ?thesis
    using p unwritten_prefix [of fresh rest] unwritten_run [of fresh rest] h l z
    by (simp only: simp_thms)
qed

subsection \<open>The invariant of the table\<close>

lemma emit_s_vec:
  assumes "emit fresh code st = Inr st1" and "flag st = DEFERRED \<longrightarrow> s_vec st \<noteq> []"
  shows "s_vec st1 \<noteq> []"
  using assms by (auto simp add: emit_def split: if_splits option.splits)

lemma two_less_power: "2 \<le> cs \<Longrightarrow> (2::nat) ^ cs + 2 < 2 ^ (cs + 1)"
proof -
  assume "2 \<le> cs"
  then have "(2::nat) ^ 2 \<le> 2 ^ cs" by (simp only: power_increasing_iff) 
  then show ?thesis by simp
qed

lemma data_code_inv:
  assumes inv: "LZW_inv cs st" and cs: "2 \<le> cs" "cs \<le> 8"
    and fl: "flag st = NORMAL \<or> flag st = DEFERRED"
    and code: "unat code < 2 ^ csize st" "unat code \<noteq> 2 ^ cs" "unat code \<noteq> 2 ^ cs + 1"
    and dc: "data_code fresh code st = Inr st2"
  shows "LZW_inv cs (st2\<lparr>oldcode := code\<rparr>)"
proof -
  obtain st1 where em: "emit fresh code st = Inr st1"
    and st2: "st2 = widen (table_insert (s_vec st1) st1)"
    using dc by (auto simp add: data_code_def split: sum.splits)
  note f = emit_fields [OF em]
  have "flag st = DEFERRED \<longrightarrow> s_vec st \<noteq> []" using inv by (simp add: LZW_inv_def)
  with em have e: "s_vec st1 \<noteq> []" by (rule emit_s_vec)
  let ?t = "table_insert (s_vec st1) st1"
  let ?n = "lzw_table_elements st"
  have w: "cs + 1 \<le> csize st" "csize st \<le> 12" "mask16 st = mask (csize st)" "offset st < 8"
    using inv by (simp_all add: LZW_inv_def width_inv_def)
  have n: "2 ^ cs + 2 \<le> ?n" "?n \<le> length (lzw_table st)"
    using inv by (simp_all add: LZW_inv_def)
  have nrm: "flag st = NORMAL \<Longrightarrow> ?n < 2 ^ csize st"
    and dfr: "flag st = DEFERRED \<Longrightarrow> csize st = 12 \<and> 2 ^ 12 \<le> ?n"
    using inv by (simp_all add: LZW_inv_def)
  have len: "?n + 1 \<le> length (lzw_table ?t)" "length (lzw_table st) \<le> length (lzw_table ?t)"
    using table_insert_length [of st1 "s_vec st1"] n(2) by (simp_all add: f)
  have nth: "\<And>i. i < length (lzw_table ?t) \<Longrightarrow> lzw_table ?t ! i =
      (if i = ?n then Some (s_vec st1)
       else if i < length (lzw_table st) then lzw_table st ! i else None)"
    using table_insert_nth [of st1 _ "s_vec st1"] n(2) by (simp add: f)
  have width: "width_inv cs (st2\<lparr>oldcode := code\<rparr>)"
    using w by (auto simp add: st2 width_inv_def widen_def f MAX_CSIZE_def mask16_eq mask16_eq')
  have size: "2 ^ cs + 2 \<le> lzw_table_elements (st2\<lparr>oldcode := code\<rparr>)"
    "lzw_table_elements (st2\<lparr>oldcode := code\<rparr>) \<le> length (lzw_table (st2\<lparr>oldcode := code\<rparr>))"
    using n len by (simp_all add: st2 f)
  have early: "flag (st2\<lparr>oldcode := code\<rparr>) = MUSTCLEAR \<or> flag (st2\<lparr>oldcode := code\<rparr>) = FIRST \<longrightarrow>
      csize (st2\<lparr>oldcode := code\<rparr>) = cs + 1 \<and>
      lzw_table_elements (st2\<lparr>oldcode := code\<rparr>) = 2 ^ cs + 2"
    using fl by (auto simp add: st2 widen_def f)
  have normal: "flag (st2\<lparr>oldcode := code\<rparr>) = NORMAL \<longrightarrow>
      lzw_table_elements (st2\<lparr>oldcode := code\<rparr>) < 2 ^ csize (st2\<lparr>oldcode := code\<rparr>) \<and>
      unat (oldcode (st2\<lparr>oldcode := code\<rparr>)) \<noteq> 2 ^ cs \<and>
      unat (oldcode (st2\<lparr>oldcode := code\<rparr>)) \<noteq> 2 ^ cs + 1"
    using fl nrm dfr code(2,3)
    by (auto simp add: st2 widen_def f MAX_CSIZE_def)
  have deferred: "flag (st2\<lparr>oldcode := code\<rparr>) = DEFERRED \<longrightarrow>
      csize (st2\<lparr>oldcode := code\<rparr>) = 12 \<and> 2 ^ 12 \<le> lzw_table_elements (st2\<lparr>oldcode := code\<rparr>) \<and>
      s_vec (st2\<lparr>oldcode := code\<rparr>) \<noteq> []"
    using fl nrm dfr w(2) e
    by (auto simp add: st2 widen_def f MAX_CSIZE_def)
  have lits: "\<forall>i < 2 ^ cs. lzw_table (st2\<lparr>oldcode := code\<rparr>) ! i = Some [of_nat i]"
  proof (intro allI impI)
    fix i :: nat assume i: "i < 2 ^ cs"
    then have "i < ?n" "i < length (lzw_table st)" "i < length (lzw_table ?t)"
      using n len by simp_all
    then have "lzw_table ?t ! i = lzw_table st ! i" by (simp add: nth)
    then show "lzw_table (st2\<lparr>oldcode := code\<rparr>) ! i = Some [of_nat i]"
      using inv i by (simp add: st2 LZW_inv_def)
  qed
  have present: "\<forall>i < lzw_table_elements (st2\<lparr>oldcode := code\<rparr>).
      \<exists>x e. lzw_table (st2\<lparr>oldcode := code\<rparr>) ! i = Some (x # e)"
  proof (intro allI impI)
    fix i assume "i < lzw_table_elements (st2\<lparr>oldcode := code\<rparr>)"
    then have i: "i < ?n + 1" by (simp add: st2 f)
    then have il: "i < length (lzw_table ?t)" using len by simp
    show "\<exists>x e. lzw_table (st2\<lparr>oldcode := code\<rparr>) ! i = Some (x # e)"
    proof (cases "i = ?n")
      case True
      then have "lzw_table ?t ! i = Some (s_vec st1)" using il by (simp add: nth)
      then show ?thesis using e by (cases "s_vec st1") (simp_all add: st2)
    next
      case False
      then have "i < ?n" using i by simp
      moreover from this have "lzw_table ?t ! i = lzw_table st ! i"
        using il n(2) False by (simp add: nth)
      ultimately show ?thesis using inv by (simp add: st2 LZW_inv_def)
    qed
  qed
  show ?thesis
    unfolding LZW_inv_def
    using width size early normal deferred lits present by blast
qed

lemma unat_of_nat16: "i < 2 ^ 16 \<Longrightarrow> unat (of_nat i :: 16 word) = i"
  by (simp add: unat_of_nat)

lemma init_table_nth:
  "i < n \<Longrightarrow> (map f [0..<n] @ replicate k z) ! i = f i"
  "\<not> i < n \<Longrightarrow> i < length (map f [0..<n] @ replicate k z) \<Longrightarrow>
     (map f [0..<n] @ replicate k z) ! i = z"
  by (simp_all add: nth_append)

lemma LZW_inv_init:
  assumes "2 \<le> cs" "cs \<le> 8"
  shows "LZW_inv cs (LZW_init cs)"
proof -
  let ?el = "(2::nat) ^ cs + 2"
  let ?tbl = "map (\<lambda>i. Some [of_nat i :: 16 word]) [0..<?el] @ replicate (10 - ?el) (Some [])"
  have p: "(2::nat) ^ cs \<le> 2 ^ 8" using assms(2) by (simp only: power_increasing_iff)
  have t: "lzw_table (LZW_init cs) = ?tbl" "lzw_table_elements (LZW_init cs) = ?el"
    by (simp_all add: LZW_init_def Let_def)
  have width: "width_inv cs (LZW_init cs)"
    using assms by (simp add: width_inv_init)
  have lits: "\<forall>i < 2 ^ cs. ?tbl ! i = Some [of_nat i]"
  proof (intro allI impI)
    fix i :: nat assume "i < 2 ^ cs"
    then have "i < ?el" by simp
    then show "?tbl ! i = Some [of_nat i]" by (rule init_table_nth(1))
  qed
  have present: "\<forall>i < ?el. \<exists>x e. ?tbl ! i = Some (x # e)"
  proof (intro allI impI)
    fix i :: nat assume "i < ?el"
    then have "?tbl ! i = Some [of_nat i]" by (rule init_table_nth(1))
    then show "\<exists>x e. ?tbl ! i = Some (x # e)" by simp
  qed
  show ?thesis
    unfolding LZW_inv_def t
    using width lits present
    by (simp add: LZW_init_def Let_def)
qed

lemma LZW_inv_advance: "LZW_inv cs st \<Longrightarrow> LZW_inv cs (advance st)"
  by (simp add: LZW_inv_def width_inv_def)

lemma body_inv:
  assumes inv: "LZW_inv cs st" and cs: "2 \<le> cs" "cs \<le> 8"
  shows "LZW_body fresh cs bytes st = Continue st' \<Longrightarrow> LZW_inv cs st'"
    and "LZW_body fresh cs bytes st = Break st' \<Longrightarrow> LZW_inv cs st'"
proof -
  let ?code = "read_code bytes st"
  have adv: "LZW_inv cs (advance st)" using inv by (rule LZW_inv_advance)
  have m: "mask16 st = mask (csize st)" using inv by (simp add: LZW_inv_def width_inv_def)
  have less: "unat ?code < 2 ^ csize st" using m by (rule read_code_less)
  have c15: "cs < 16" "cs < 15" using cs by simp_all
  show "LZW_body fresh cs bytes st = Break st' \<Longrightarrow> LZW_inv cs st'"
    using adv by (auto simp add: LZW_body_eq Let_def split: if_splits sum.splits)
  assume b: "LZW_body fresh cs bytes st = Continue st'"
  show "LZW_inv cs st'"
  proof (cases "flag st")
    case MUSTCLEAR
    then have "st' = (advance st)\<lparr>flag := FIRST, oldcode := ?code\<rparr>"
      using b by (simp add: LZW_body_eq Let_def split: if_splits)
    then show ?thesis
      using adv MUSTCLEAR by (simp add: LZW_inv_def width_inv_def)
  next
    case FIRST
    then have st': "st' = (advance st)\<lparr>lzw_codes := lzw_codes st @ [?code], flag := NORMAL,
        oldcode := ?code\<rparr>" and lt: "?code < CLEAR cs"
      using b by (simp_all add: LZW_body_eq Let_def split: if_splits)
    have "unat ?code < 2 ^ cs" using lt c15 by (simp add: less_CLEAR_iff)
    then show ?thesis
      using adv FIRST lt two_less_power [OF cs(1)]
      by (simp add: st' LZW_inv_def width_inv_def)
  next
    case NORMAL
    show ?thesis
    proof (cases "?code = CLEAR cs")
      case True
      then have "st' = (advance st)\<lparr>lzw_table_elements := 2 ^ cs + 2, csize := cs + 1,
          mask16 := push_bit (cs + 1) 1 - 1, flag := FIRST, oldcode := ?code\<rparr>"
        using b NORMAL by (simp add: LZW_body_eq Let_def split: if_splits)
      then show ?thesis
        using adv cs by (simp add: LZW_inv_def width_inv_def mask16_eq mask16_eq')
    next
      case False
      then have ne: "unat ?code \<noteq> 2 ^ cs" "unat ?code \<noteq> 2 ^ cs + 1"
        using b NORMAL c15 unat_CLEAR [of cs] unat_EOI [of cs]
        by (auto simp add: LZW_body_eq Let_def word_unat_eq_iff split: if_splits)
      obtain st2 where dc: "data_code fresh ?code (advance st) = Inr st2"
        and st': "st' = st2\<lparr>oldcode := ?code\<rparr>"
        using b NORMAL False
        by (auto simp add: LZW_body_eq Let_def split: if_splits sum.splits)
      have "LZW_inv cs (st2\<lparr>oldcode := ?code\<rparr>)"
        using adv cs _ _ ne dc by (rule data_code_inv) (simp_all add: NORMAL less)
      then show ?thesis by (simp add: st')
    qed
  next
    case DEFERRED
    show ?thesis
    proof (cases "?code = CLEAR cs")
      case True
      then have "st' = (advance st)\<lparr>lzw_table_elements := 2 ^ cs + 2, csize := cs + 1,
          mask16 := push_bit (cs + 1) 1 - 1, flag := FIRST, oldcode := ?code\<rparr>"
        using b DEFERRED by (simp add: LZW_body_eq Let_def split: if_splits)
      then show ?thesis
        using adv cs by (simp add: LZW_inv_def width_inv_def mask16_eq mask16_eq')
    next
      case False
      then have ne: "unat ?code \<noteq> 2 ^ cs" "unat ?code \<noteq> 2 ^ cs + 1"
        using b DEFERRED c15 unat_CLEAR [of cs] unat_EOI [of cs]
        by (auto simp add: LZW_body_eq Let_def word_unat_eq_iff split: if_splits)
      obtain st2 where dc: "data_code fresh ?code (advance st) = Inr st2"
        and st': "st' = st2\<lparr>oldcode := ?code\<rparr>"
        using b DEFERRED False
        by (auto simp add: LZW_body_eq Let_def split: if_splits sum.splits)
      have "LZW_inv cs (st2\<lparr>oldcode := ?code\<rparr>)"
        using adv cs _ _ ne dc by (rule data_code_inv) (simp_all add: DEFERRED less)
      then show ?thesis by (simp add: st')
    qed
  qed
qed

subsection \<open>The invariant along a run\<close>

lemma LZW_run_inv:
  assumes "2 \<le> cs" "cs \<le> 8"
  shows "LZW_run fresh cs len bytes n (LZW_init cs) = Running st \<Longrightarrow> LZW_inv cs st"
    and "LZW_run fresh cs len bytes n (LZW_init cs) = Exhausted st \<Longrightarrow> LZW_inv cs st"
    and "LZW_run fresh cs len bytes n (LZW_init cs) = AtEOI st \<Longrightarrow> LZW_inv cs st"
proof -
  have step: "\<And>s s'. LZW_inv cs s \<Longrightarrow> LZW_body fresh cs bytes s = Continue s' \<Longrightarrow> LZW_inv cs s'"
    by (rule body_inv(1) [OF _ assms])
  have init: "LZW_inv cs (LZW_init cs)" using assms by (rule LZW_inv_init)
  show "LZW_run fresh cs len bytes n (LZW_init cs) = Running st \<Longrightarrow> LZW_inv cs st"
    using step init by (rule LZW_run_invariant(1))
  show "LZW_run fresh cs len bytes n (LZW_init cs) = Exhausted st \<Longrightarrow> LZW_inv cs st"
    using step init by (rule LZW_run_invariant(2))
  assume "LZW_run fresh cs len bytes n (LZW_init cs) = AtEOI st"
  with step init have "\<exists>s. LZW_inv cs s \<and> LZW_body fresh cs bytes s = Break st"
    by (rule LZW_run_invariant(3))
  then show "LZW_inv cs st" using assms body_inv(2) by blast
qed

text \<open>
  Claim C7: when a clear code is read in state \<open>NORMAL\<close> or \<open>DEFERRED\<close> of a run, however
  large the table has grown, the size of the table becomes \<open>2 ^ CodeSize + 2\<close> again, the
  entries below the clear code are the one-element sequences of their own value, the
  width is \<open>CodeSize + 1\<close> again and the state is \<open>FIRST\<close>, with the output unchanged. In
  that state the next code is treated as the first code after the opening clear code:
  a literal \<open>c\<close> below the clear code is appended to the output and becomes the prior
  code, whose entry is \<open>[c]\<close> (nothing of the sequence before the clear code is kept);
  any other code makes the decoder return 0 (\<open>BadInitialCode\<close>).
\<close>

theorem clear_code_resets:
  assumes cs: "2 \<le> cs" "cs \<le> 8"
    and run: "LZW_run fresh cs len bytes n (LZW_init cs) = Running st"
    and fl: "flag st = NORMAL \<or> flag st = DEFERRED"
    and clear: "read_code bytes st = CLEAR cs"
  shows "\<exists>st'. LZW_body fresh cs bytes st = Continue st' \<and>
      lzw_table_elements st' = 2 ^ cs + 2 \<and>
      (\<forall>i < 2 ^ cs. lzw_table st' ! i = Some [of_nat i]) \<and>
      csize st' = cs + 1 \<and> mask16 st' = mask (cs + 1) \<and> flag st' = FIRST \<and>
      lzw_codes st' = lzw_codes st \<and>
      (read_code bytes st' < CLEAR cs \<longrightarrow>
         (\<exists>st''. LZW_body fresh cs bytes st' = Continue st'' \<and>
            lzw_codes st'' = lzw_codes st @ [read_code bytes st'] \<and>
            flag st'' = NORMAL \<and> oldcode st'' = read_code bytes st' \<and>
            slot (lzw_table st'') (unat (oldcode st'')) = Some [read_code bytes st'] \<and>
            lzw_table_elements st'' = 2 ^ cs + 2 \<and> csize st'' = cs + 1)) \<and>
      (\<not> read_code bytes st' < CLEAR cs \<longrightarrow>
         LZW_body fresh cs bytes st' = Return0 BadInitialCode)"
proof -
  let ?st' = "(advance st)\<lparr>lzw_table_elements := 2 ^ cs + 2, csize := cs + 1,
      mask16 := push_bit (cs + 1) 1 - 1, flag := FIRST, oldcode := read_code bytes st\<rparr>"
  let ?c = "read_code bytes ?st'"
  let ?st'' = "(advance ?st')\<lparr>lzw_codes := lzw_codes ?st' @ [?c], flag := NORMAL, oldcode := ?c\<rparr>"
  have inv: "LZW_inv cs st" using cs run by (rule LZW_run_inv(1))
  have "cs < 15" using cs by simp
  then have ne: "CLEAR cs \<noteq> EOI cs"
    using unat_CLEAR [of cs] unat_EOI [of cs] by (auto simp add: word_unat_eq_iff)
  have b: "LZW_body fresh cs bytes st = Continue ?st'"
    using fl clear ne by (auto simp add: LZW_body_eq Let_def)
  have lits: "\<forall>i < 2 ^ cs. lzw_table st ! i = Some [of_nat i]"
    and len: "2 ^ cs + 2 \<le> length (lzw_table st)"
    using inv by (simp_all add: LZW_inv_def)
  have first: "?c < CLEAR cs \<longrightarrow>
      LZW_body fresh cs bytes ?st' = Continue ?st'' \<and>
      slot (lzw_table ?st'') (unat (oldcode ?st'')) = Some [?c]"
  proof
    assume lt: "?c < CLEAR cs"
    then have u: "unat ?c < 2 ^ cs" using cs by (simp add: less_CLEAR_iff)
    then have "lzw_table st ! unat ?c = Some [of_nat (unat ?c)]" using lits by blast
    then have "slot (lzw_table st) (unat ?c) = Some [?c]"
      using u len by (simp add: slot_def)
    then show "LZW_body fresh cs bytes ?st' = Continue ?st'' \<and>
        slot (lzw_table ?st'') (unat (oldcode ?st'')) = Some [?c]"
      using lt by (simp add: LZW_body_eq Let_def)
  qed
  have bad: "\<not> ?c < CLEAR cs \<longrightarrow> LZW_body fresh cs bytes ?st' = Return0 BadInitialCode"
    by (simp add: LZW_body_eq Let_def)
  show ?thesis
    apply (rule exI [of _ ?st'])
    using b lits first bad
    apply (simp add: mask16_eq mask16_eq')
    done
qed

text \<open>
  The code size 2 and the stream \<open>[4, 0, 1, 2, 4, 1, 5]\<close> with the widths 3, 3, 3, 3, 4,
  3, 3 (the bytes 44 44 29): after four codes the table holds 8 entries and the width
  is 4; the fifth code is a clear code, after which the table holds 6 entries and the
  width is 3; the sixth code is the literal 1.
\<close>

theorem clear_code_resets_witness:
  "pack [(4, 3), (0, 3), (1, 3), (2, 3), (4, 4), (1, 3), (5, 3)] = [68, 68, 41] \<and>
   LZW_run zero_filled 2 3 (buffer [68, 68, 41] (filled 0)) 4 (LZW_init 2) =
     Running \<lparr>csize = 4, mask16 = 15, flag = NORMAL, oldcode = 2,
       lzw_table = [Some [0], Some [1], Some [2], Some [3], Some [4], Some [5],
                    Some [0, 1], Some [1, 2], Some [], Some []],
       lzw_table_elements = 8, lzw_codes = [0, 1, 2], s_vec = [1, 2], offset = 4, ind = 1\<rparr> \<and>
   (\<exists>st'. LZW_body zero_filled 2 (buffer [68, 68, 41] (filled 0))
       \<lparr>csize = 4, mask16 = 15, flag = NORMAL, oldcode = 2,
         lzw_table = [Some [0], Some [1], Some [2], Some [3], Some [4], Some [5],
                      Some [0, 1], Some [1, 2], Some [], Some []],
         lzw_table_elements = 8, lzw_codes = [0, 1, 2], s_vec = [1, 2], offset = 4, ind = 1\<rparr>
       = Continue st' \<and>
     lzw_table_elements st' = 6 \<and> csize st' = 3 \<and> flag st' = FIRST \<and>
     lzw_codes st' = [0, 1, 2] \<and> read_code (buffer [68, 68, 41] (filled 0)) st' = 1 \<and>
     (\<exists>st''. LZW_body zero_filled 2 (buffer [68, 68, 41] (filled 0)) st' = Continue st'' \<and>
        lzw_codes st'' = [0, 1, 2, 1] \<and> flag st'' = NORMAL \<and> oldcode st'' = 1))"
proof -
  let ?B = "buffer [68, 68, 41] (filled 0)"
  let ?st = "\<lparr>csize = 4, mask16 = 15, flag = NORMAL, oldcode = 2,
       lzw_table = [Some [0], Some [1], Some [2], Some [3], Some [4], Some [5],
                    Some [0 :: 16 word, 1], Some [1, 2], Some [], Some []],
       lzw_table_elements = 8, lzw_codes = [0, 1, 2], s_vec = [1, 2], offset = 4, ind = 1\<rparr>"
  have p: "pack [(4, 3), (0, 3), (1, 3), (2, 3), (4, 4), (1, 3), (5, 3)] = [68, 68, 41]"
    by code_simp
  have run: "LZW_run zero_filled 2 3 ?B 4 (LZW_init 2) = Running ?st"
    by code_simp
  have fl: "flag ?st = NORMAL \<or> flag ?st = DEFERRED" by simp
  have clear: "read_code ?B ?st = CLEAR 2" by code_simp
  have cs: "(2::nat) \<le> 2" "(2::nat) \<le> 8" by simp_all
  obtain st' where st': "LZW_body zero_filled 2 ?B ?st = Continue st'"
    "lzw_table_elements st' = 2 ^ 2 + 2" "csize st' = 2 + 1" "flag st' = FIRST"
    "lzw_codes st' = lzw_codes ?st"
    "read_code ?B st' < CLEAR 2 \<longrightarrow>
         (\<exists>st''. LZW_body zero_filled 2 ?B st' = Continue st'' \<and>
            lzw_codes st'' = lzw_codes ?st @ [read_code ?B st'] \<and>
            flag st'' = NORMAL \<and> oldcode st'' = read_code ?B st' \<and>
            slot (lzw_table st'') (unat (oldcode st'')) = Some [read_code ?B st'] \<and>
            lzw_table_elements st'' = 2 ^ 2 + 2 \<and> csize st'' = 2 + 1)"
    using clear_code_resets [OF cs run fl clear] by blast
  have c0: "read_code ?B \<lparr>csize = 3, mask16 = 7, flag = FIRST, oldcode = 4,
       lzw_table = [Some [0], Some [1], Some [2], Some [3], Some [4], Some [5],
                    Some [0, 1], Some [1, 2], Some [], Some []],
       lzw_table_elements = 6, lzw_codes = [0, 1, 2], s_vec = [1, 2], offset = 0, ind = 2\<rparr> = 1"
    by code_simp
  have "st' = \<lparr>csize = 3, mask16 = 7, flag = FIRST, oldcode = 4,
       lzw_table = [Some [0], Some [1], Some [2], Some [3], Some [4], Some [5],
                    Some [0, 1], Some [1, 2], Some [], Some []],
       lzw_table_elements = 6, lzw_codes = [0, 1, 2], s_vec = [1, 2], offset = 0, ind = 2\<rparr>"
  proof -
    have "LZW_body zero_filled 2 ?B ?st = Continue \<lparr>csize = 3, mask16 = 7, flag = FIRST, oldcode = 4,
       lzw_table = [Some [0], Some [1], Some [2], Some [3], Some [4], Some [5],
                    Some [0, 1], Some [1, 2], Some [], Some []],
       lzw_table_elements = 6, lzw_codes = [0, 1, 2], s_vec = [1, 2], offset = 0, ind = 2\<rparr>"
      by code_simp
    then show ?thesis using st'(1) by simp
  qed
  then have c: "read_code ?B st' = 1" using c0 by (simp only:)
  then have "read_code ?B st' < CLEAR 2" by (simp add: CLEAR_def)
  then show ?thesis
    using p run st' c by auto
qed

subsection \<open>A table that is filled\<close>

text \<open>
  The code size 2 and a buffer of 6144 bytes, the byte 04 followed by zero bytes: the
  clear code, then codes 0 only, each of which inserts an entry.
\<close>

lemma filling_nth:
  "buffer (4 # replicate 6143 0) (filled 0) k = (if k = 0 then 4 else 0)"
  by (cases k) (simp_all add: buffer_def filled_def)

lemma filling_read:
  assumes "mask16 st = mask (csize st)" "6 \<le> 8 * unat (ind st) + offset st"
  shows "read_code (buffer (4 # replicate 6143 0) (filled 0)) st = 0"
proof (rule bit_eqI)
  fix j
  have "\<not> bit (4 :: 8 word) ((offset st + j) mod 8)" if "unat (ind st) + (offset st + j) div 8 = 0"
  proof -
    from that have "unat (ind st) = 0" "(offset st + j) div 8 = 0" by simp_all
    then have "6 \<le> offset st" "offset st + j < 8" using assms(2) by (simp_all add: div_eq_0_iff)
    then have "offset st + j = 6 \<or> offset st + j = 7" by linarith
    then show ?thesis by (auto simp add: bit_numeral_rec)
  qed
  then show "bit (read_code (buffer (4 # replicate 6143 0) (filled 0)) st) j = bit (0 :: 16 word) j"
    by (auto simp add: bit_read_code [OF assms(1)] bit_accumulate filling_nth)
qed

lemma data_step_defined:
  assumes inv: "LZW_inv cs st" and cs: "2 \<le> cs" "cs \<le> 8"
    and fl: "flag st = NORMAL \<or> flag st = DEFERRED"
    and code: "read_code bytes st = 0" and old: "oldcode st = 0"
  shows "\<exists>st'. LZW_body fresh cs bytes st = Continue st' \<and>
    lzw_table_elements st' = lzw_table_elements st + 1 \<and> oldcode st' = 0 \<and>
    (flag st' = NORMAL \<or> flag st' = DEFERRED)"
proof -
  have n: "2 ^ cs + 2 \<le> lzw_table_elements st" "lzw_table_elements st \<le> length (lzw_table st)"
    using inv by (simp_all add: LZW_inv_def)
  have p: "(0::nat) < 2 ^ cs" "0 < lzw_table_elements st" "0 < length (lzw_table st)"
    using n by (simp, linarith, linarith)
  have "lzw_table st ! 0 = Some [of_nat 0]"
    using inv p(1) unfolding LZW_inv_def by blast
  then have s0: "slot (lzw_table st) 0 = Some [0]" using p(3) by (simp add: slot_def)
  have c: "(0 :: 16 word) \<noteq> CLEAR cs" "(0 :: 16 word) \<noteq> EOI cs"
    using unat_CLEAR [of cs] unat_EOI [of cs] cs by (auto simp add: word_unat_eq_iff)
  obtain st1 where em: "emit fresh 0 (advance st) = Inr st1"
    using fl s0 old p(2) by (auto simp add: emit_def cell_vector_def cell_first_def)
  let ?st2 = "widen (table_insert (s_vec st1) st1)"
  have dc: "data_code fresh 0 (advance st) = Inr ?st2"
    using em by (simp add: data_code_def)
  have b: "LZW_body fresh cs bytes st = Continue (?st2\<lparr>oldcode := 0\<rparr>)"
    using fl code c dc by (auto simp add: LZW_body_eq Let_def)
  have "flag ?st2 = NORMAL \<or> flag ?st2 = DEFERRED"
    using fl by (auto simp add: widen_def emit_fields [OF em])
  then show ?thesis
    using b by (simp add: emit_fields [OF em])
qed

lemma filling_step:
  assumes run: "LZW_run fresh 2 6144 (buffer (4 # replicate 6143 0) (filled 0)) n (LZW_init 2) = Running st"
    and fl: "flag st = NORMAL \<or> flag st = DEFERRED" and old: "oldcode st = 0"
    and lo: "6 \<le> 8 * unat (ind st) + offset st"
    and hi: "8 * unat (ind st) + offset st \<le> 6 + 12 * k" and k: "k \<le> 4090"
  shows "\<exists>st'. LZW_run fresh 2 6144 (buffer (4 # replicate 6143 0) (filled 0)) (Suc n) (LZW_init 2)
        = Running st' \<and>
      LZW_body fresh 2 (buffer (4 # replicate 6143 0) (filled 0)) st = Continue st' \<and>
      (flag st' = NORMAL \<or> flag st' = DEFERRED) \<and> oldcode st' = 0 \<and>
      lzw_table_elements st' = lzw_table_elements st + 1 \<and>
      6 \<le> 8 * unat (ind st') + offset st' \<and>
      8 * unat (ind st') + offset st' \<le> 6 + 12 * Suc k"
proof -
  let ?B = "buffer (4 # replicate 6143 0) (filled 0)"
  have cs: "(2::nat) \<le> 2" "(2::nat) \<le> 8" by simp_all
  have inv: "LZW_inv 2 st" using cs run by (rule LZW_run_inv(1))
  then have w: "width_inv 2 st" by (simp add: LZW_inv_def)
  then have m: "mask16 st = mask (csize st)" and c12: "csize st \<le> 12"
    by (simp_all add: width_inv_def)
  have "unat (ind st) \<le> 6135" using hi k by simp
  then have le: "ind st \<le> 6144" by (simp add: word_le_nat_alt)
  have code: "read_code ?B st = 0" using m lo by (rule filling_read)
  obtain st' where st': "LZW_body fresh 2 ?B st = Continue st'"
    "lzw_table_elements st' = lzw_table_elements st + 1" "oldcode st' = 0"
    "flag st' = NORMAL \<or> flag st' = DEFERRED"
    using data_step_defined [OF inv cs fl code old] by blast
  have pos: "8 * unat (ind st') + offset st' = 8 * unat (ind st) + offset st + csize st"
    using w st'(1) le by (rule body_position) simp
  have "LZW_run fresh 2 6144 ?B (Suc n) (LZW_init 2) = LZW_run fresh 2 6144 ?B (Suc 0) st"
    by (simp only: LZW_run_snoc [of fresh 2 6144 ?B n] run progress.case)
  also have "\<dots> = Running st'" using le st'(1) by simp
  finally show ?thesis
    using st' pos lo hi c12 by (auto simp del: LZW_run.simps)
qed

lemma filling_run:
  "k \<le> 4091 \<Longrightarrow>
   \<exists>st. LZW_run fresh 2 6144 (buffer (4 # replicate 6143 0) (filled 0)) (Suc (Suc k)) (LZW_init 2)
       = Running st \<and>
     (flag st = NORMAL \<or> flag st = DEFERRED) \<and> oldcode st = 0 \<and>
     lzw_table_elements st = 6 + k \<and>
     6 \<le> 8 * unat (ind st) + offset st \<and> 8 * unat (ind st) + offset st \<le> 6 + 12 * k"
proof (induction k)
  case 0
  let ?B = "buffer (4 # replicate 6143 0) (filled 0)"
  have b1: "LZW_body fresh 2 ?B (LZW_init 2) =
      Continue ((advance (LZW_init 2))\<lparr>flag := FIRST, oldcode := 4\<rparr>)"
    by (simp add: LZW_body_eq Let_def LZW_init_def read_code_def accumulate_def filling_nth CLEAR_def)
  have b2: "LZW_body fresh 2 ?B ((advance (LZW_init 2))\<lparr>flag := FIRST, oldcode := 4\<rparr>) =
      Continue ((advance ((advance (LZW_init 2))\<lparr>flag := FIRST, oldcode := 4\<rparr>))
        \<lparr>lzw_codes := [0], flag := NORMAL, oldcode := 0\<rparr>)"
    by (simp add: LZW_body_eq Let_def LZW_init_def read_code_def accumulate_def filling_nth CLEAR_def
        advance_def)
  have "LZW_run fresh 2 6144 ?B (Suc (Suc 0)) (LZW_init 2) =
      Running ((advance ((advance (LZW_init 2))\<lparr>flag := FIRST, oldcode := 4\<rparr>))
        \<lparr>lzw_codes := [0], flag := NORMAL, oldcode := 0\<rparr>)"
    using b1 b2 by (simp add: LZW_init_def advance_def Let_def)
  then show ?case
    by (simp add: LZW_init_def advance_def Let_def)
next
  case (Suc k)
  then have k: "k \<le> 4090" by simp
  then obtain st where st:
      "LZW_run fresh 2 6144 (buffer (4 # replicate 6143 0) (filled 0)) (Suc (Suc k)) (LZW_init 2) = Running st"
      "flag st = NORMAL \<or> flag st = DEFERRED" "oldcode st = 0" "lzw_table_elements st = 6 + k"
      "6 \<le> 8 * unat (ind st) + offset st" "8 * unat (ind st) + offset st \<le> 6 + 12 * k"
    using Suc.IH by auto
  from filling_step [OF st(1,2,3,5,6) k] st(4) show ?case
    by (auto simp del: LZW_run.simps)
qed

lemma filling_deferred:
  "\<exists>st st'.
     LZW_run fresh 2 6144 (buffer (4 # replicate 6143 0) (filled 0)) 4092 (LZW_init 2) = Running st \<and>
     flag st = DEFERRED \<and> csize st = 12 \<and> lzw_table_elements st = 4096 \<and>
     read_code (buffer (4 # replicate 6143 0) (filled 0)) st = 0 \<and>
     LZW_body fresh 2 (buffer (4 # replicate 6143 0) (filled 0)) st = Continue st' \<and>
     LZW_run fresh 2 6144 (buffer (4 # replicate 6143 0) (filled 0)) 4093 (LZW_init 2) = Running st' \<and>
     lzw_table_elements st' = 4097"
proof -
  let ?B = "buffer (4 # replicate 6143 0) (filled 0)"
  have n: "Suc (Suc 4090) = 4092" "Suc 4092 = 4093" by simp_all
  obtain st where st: "LZW_run fresh 2 6144 ?B 4092 (LZW_init 2) = Running st"
      "flag st = NORMAL \<or> flag st = DEFERRED" "oldcode st = 0" "lzw_table_elements st = 4096"
      "6 \<le> 8 * unat (ind st) + offset st" "8 * unat (ind st) + offset st \<le> 6 + 12 * 4090"
    using filling_run [of 4090] by (auto simp only: n simp_thms le_refl order_refl
        numeral_le_iff semiring_norm) 
  have cs: "(2::nat) \<le> 2" "(2::nat) \<le> 8" by simp_all
  have inv: "LZW_inv 2 st" using cs st(1) by (rule LZW_run_inv(1))
  have c12: "csize st \<le> 12" "mask16 st = mask (csize st)"
    using inv by (simp_all add: LZW_inv_def width_inv_def)
  then have "(2::nat) ^ csize st \<le> 2 ^ 12" by (simp only: power_increasing_iff) 
  then have "\<not> lzw_table_elements st < 2 ^ csize st" using st(4) by simp
  then have d: "flag st = DEFERRED" "csize st = 12"
    using inv st(2) by (auto simp add: LZW_inv_def)
  have r: "read_code ?B st = 0" using c12(2) st(5) by (rule filling_read)
  obtain st' where st': "LZW_run fresh 2 6144 ?B 4093 (LZW_init 2) = Running st'"
      "LZW_body fresh 2 ?B st = Continue st'" "lzw_table_elements st' = lzw_table_elements st + 1"
    using filling_step [OF st(1,2,3,5,6)] by (auto simp only: n le_refl simp_thms)
  show ?thesis
    using st(1,4) d r st' by (auto simp del: LZW_run.simps)
qed

text \<open>
  Claim C1: the table never holds more than 4096 entries, and once it holds 4096 the
  insertion is a no-op until the next clear code. The decoder sets \<open>DEFERRED\<close> when the
  table reaches 4096 entries at width 12, but the insertion of lines 199 to 201 is not
  under the test of the state. For the code size 2 and a buffer of 6144 bytes, the byte
  04 followed by zero bytes, the table holds 4096 entries after 4092 codes, in state
  \<open>DEFERRED\<close>, and 4097 entries after the next code; the width stays 12.
\<close>

theorem table_grows_past_4096:
  "\<exists>st st'.
     LZW_run fresh 2 6144 (buffer (4 # replicate 6143 0) (filled 0)) 4092 (LZW_init 2) = Running st \<and>
     flag st = DEFERRED \<and> csize st = 12 \<and> lzw_table_elements st = 4096 \<and>
     LZW_body fresh 2 (buffer (4 # replicate 6143 0) (filled 0)) st = Continue st' \<and>
     flag st' = DEFERRED \<and> csize st' = 12 \<and> lzw_table_elements st' = 4097"
proof -
  let ?B = "buffer (4 # replicate 6143 0) (filled 0)"
  obtain st st' where s:
      "LZW_run fresh 2 6144 ?B 4092 (LZW_init 2) = Running st"
      "flag st = DEFERRED" "csize st = 12" "lzw_table_elements st = 4096"
      "LZW_body fresh 2 ?B st = Continue st'"
      "LZW_run fresh 2 6144 ?B 4093 (LZW_init 2) = Running st'"
      "lzw_table_elements st' = 4097"
    using filling_deferred by blast
  have cs: "(2::nat) \<le> 2" "(2::nat) \<le> 8" by simp_all
  have inv: "LZW_inv 2 st'" using cs s(6) by (rule LZW_run_inv(1))
  then have "csize st' \<le> 12" by (simp add: LZW_inv_def width_inv_def)
  then have "(2::nat) ^ csize st' \<le> 2 ^ 12" by (simp only: power_increasing_iff)
  then have "\<not> lzw_table_elements st' < 2 ^ csize st'" using s(7) by simp
  moreover have "flag st' = NORMAL \<or> flag st' = DEFERRED"
    using inv s(7) by (cases "flag st'") (simp_all add: LZW_inv_def)
  ultimately have "flag st' = DEFERRED \<and> csize st' = 12"
    using inv by (auto simp add: LZW_inv_def)
  then show ?thesis using s by blast
qed



end
